theory Spec2Isabelle
  imports Main "HOL-Library.Multiset"
begin

section \<open>The arbiter: LockHost\<close>

text \<open>
  \<^verbatim>\<open>class LockHost extends Lock { private locked = false; lock() {...} unlock() {...} }\<close>
  The host owns one boolean. Both methods return an already settled promise, so each is
  one atomic step on the host's state: \<open>lock\<close> returns the boolean the promise carries
  together with the new state, \<open>unlock\<close> returns the new state.
\<close>

record LockHost =
  locked :: bool

definition LockHost_init :: LockHost where
  "LockHost_init = \<lparr>locked = False\<rparr>"

definition LockHost_lock :: "LockHost \<Rightarrow> bool \<times> LockHost" where
  "LockHost_lock h = (if locked h then (False, h) else (True, h\<lparr>locked := True\<rparr>))"

definition LockHost_unlock :: "LockHost \<Rightarrow> LockHost" where
  "LockHost_unlock h = h\<lparr>locked := False\<rparr>"

section \<open>The Mutex\<close>

text \<open>
  \<^verbatim>\<open>type Message = 'waiting' | 'unlocked'\<close>
\<close>

datatype Message = waiting | unlocked

text \<open>
  The failures a caller can see: \<^verbatim>\<open>new Error('Not locked')\<close> thrown by \<open>unlock\<close>, a
  rejection of the arbiter's request (the transport is not part of the source; its
  rejection is a value handed in with the reply), the \<open>TypeError\<close> of calling
  \<^verbatim>\<open>this.waitingListener!()\<close> while the field is \<open>undefined\<close>, and whatever the
  callback handed to \<open>scope\<close> throws.
\<close>

datatype error = NotLocked | TransportError | TypeError | Thrown nat

text \<open>
  Closures that the event loop holds for a Mutex. Every \<open>lock()\<close> call is numbered in
  the order of the calls, every \<open>yieldLock()\<close> invocation likewise; the numbers stand for
  the variables the closures capture (\<open>lockedResolver\<close>, \<open>timer\<close>, \<open>unlisten\<close>,
  \<open>resolve\<close>).
  \<^item> \<open>PeerWatch c\<close>: the listener of line 56, registered by call \<open>c\<close>;
  \<^item> \<open>RetryOnUnlocked c\<close>: the listener of line 82 of call \<open>c\<close>;
  \<^item> \<open>YieldSettle p\<close>: the listener of line 135 of yield \<open>p\<close>;
  \<^item> \<open>Retry c\<close>: the timer of \<^verbatim>\<open>setInterval(tryLock, 500)\<close> of call \<open>c\<close>;
  \<^item> \<open>YieldTimeout p\<close>: the timer of \<^verbatim>\<open>setTimeout(finish, 500)\<close> of yield \<open>p\<close>.
\<close>

datatype listener = PeerWatch nat | RetryOnUnlocked nat | YieldSettle nat

datatype timer = Retry nat | YieldTimeout nat

text \<open>
  The \<open>await\<close> a \<open>lock()\<close> call is suspended at: line 53 (on the yield promise \<open>p\<close>),
  line 66 (the first \<open>lockable.lock()\<close>) or line 92 (the promise \<open>locked\<close>).
\<close>

datatype phase = AwaitYield nat | AwaitFirst | Contended

text \<open>
  What a step does to the outside: requests to the arbiter, messages published on the
  channel, and the settling of the promises that \<open>lock()\<close> and \<open>unlock()\<close> returned.
  An \<open>unlock()\<close> call carries a tag chosen by its caller, echoed when it settles.
\<close>

datatype effect =
    ArbLock nat
  | ArbUnlock nat
  | Publish Message
  | LockResolved nat
  | LockRejected nat error
  | UnlockResolved nat
  | UnlockRejected nat error
  | ConsoleError error
  | ListenerThrew error

text \<open>
  The four fields of the class, then what the event loop holds for the instance:
  the channel's listeners in the order they subscribed, the active timers, the clock
  in milliseconds and the time each timer is due at, the suspended \<open>lock()\<close> calls,
  the number of \<open>tryLock\<close> requests of each call the arbiter
  has not answered yet, the \<open>yieldLock()\<close> invocations waiting for \<open>lockable.unlock()\<close>
  (with the tag of the \<open>unlock()\<close> call that awaits them, if one does), and the two
  counters that number calls and yields.
\<close>

record Mutex =
  lockedOrPending :: bool
  yieldPromise :: "nat option"
  waitingListener :: "nat option"
  localQueue :: "nat list"
  listeners :: "listener list"
  timers :: "timer list"
  now :: nat
  due :: "timer \<Rightarrow> nat"
  suspended :: "nat \<Rightarrow> phase option"
  retrying :: "nat \<Rightarrow> nat"
  releasing :: "nat \<Rightarrow> nat option option"
  calls :: nat
  yields :: nat

definition Mutex_init :: Mutex where
  "Mutex_init = \<lparr>lockedOrPending = False, yieldPromise = None, waitingListener = None,
     localQueue = [], listeners = [], timers = [], now = 0, due = (\<lambda>_. 0),
     suspended = (\<lambda>_. None),
     retrying = (\<lambda>_. 0), releasing = (\<lambda>_. None), calls = 0, yields = 0\<rparr>"

text \<open>
  \<^verbatim>\<open>private async yieldLock()\<close>, up to its \<open>await\<close>: the promise with its timer and
  listener, then the request \<open>lockable.unlock()\<close>. \<^verbatim>\<open>setTimeout(finish, 500)\<close> makes
  the timer due 500 milliseconds after the clock of the call. \<open>u\<close> is the tag of the
  \<open>unlock()\<close> call that awaits the yield (line 110), \<open>None\<close> for the call of line 62.
\<close>

definition yieldLock :: "nat option \<Rightarrow> Mutex \<Rightarrow> effect list \<times> Mutex" where
  "yieldLock u m =
     (let p = yields m in
      ([ArbUnlock p],
       m\<lparr>yieldPromise := Some p,
         timers := timers m @ [YieldTimeout p],
         due := (due m)(YieldTimeout p := now m + 500),
         listeners := listeners m @ [YieldSettle p],
         releasing := (releasing m)(p := Some u),
         yields := Suc p\<rparr>))"

text \<open>
  \<^verbatim>\<open>finish\<close> of yield \<open>p\<close> (lines 128-133). \<open>resolve()\<close> wakes the calls suspended on
  the promise; they continue in \<open>wake\<close>, once the running handlers have returned.
\<close>

definition finish :: "nat \<Rightarrow> Mutex \<Rightarrow> Mutex" where
  "finish p m =
     m\<lparr>timers := removeAll (YieldTimeout p) (timers m),
       listeners := removeAll (YieldSettle p) (listeners m),
       yieldPromise := None\<rparr>"

text \<open>
  \<^verbatim>\<open>tryLock\<close> of call \<open>c\<close> (lines 72-80), up to the request.
\<close>

definition tryLock :: "nat \<Rightarrow> Mutex \<Rightarrow> effect list \<times> Mutex" where
  "tryLock c m = ([ArbLock c], m\<lparr>retrying := (retrying m)(c := Suc (retrying m c))\<rparr>)"

text \<open>
  Lines 56-66 of \<open>lock()\<close>: subscribe the peer listener, remember its handle, request
  the arbiter's lock and suspend on the answer.
\<close>

definition acquire :: "nat \<Rightarrow> Mutex \<Rightarrow> effect list \<times> Mutex" where
  "acquire c m =
     ([ArbLock c],
      m\<lparr>listeners := listeners m @ [PeerWatch c],
        waitingListener := Some c,
        suspended := (suspended m)(c := Some AwaitFirst)\<rparr>)"

text \<open>
  \<^verbatim>\<open>async lock()\<close>, from the call to its first suspension or return.
\<close>

definition lock :: "Mutex \<Rightarrow> effect list \<times> Mutex" where
  "lock m0 =
     (let c = calls m0; m = m0\<lparr>calls := Suc c\<rparr> in
      if lockedOrPending m then
        ([], m\<lparr>localQueue := localQueue m @ [c]\<rparr>)
      else if waitingListener m \<noteq> None then
        ([LockResolved c], m\<lparr>lockedOrPending := True\<rparr>)
      else
        (case yieldPromise m of
           Some p \<Rightarrow>
             ([Publish waiting],
              m\<lparr>lockedOrPending := True, suspended := (suspended m)(c := Some (AwaitYield p))\<rparr>)
         | None \<Rightarrow> acquire c (m\<lparr>lockedOrPending := True\<rparr>)))"

text \<open>
  \<^verbatim>\<open>async unlock()\<close>, from the call to its suspension, return or throw. On the
  hand-off of lines 102-105 \<^verbatim>\<open>next!()\<close> resolves the promise \<open>locked\<close> of the queued
  call; the promise that call's \<open>lock()\<close> returned follows \<open>locked\<close> one job later, so
  the \<open>return\<close> of line 105 settles the promise of \<open>unlock()\<close> before it.
\<close>

definition unlock :: "nat \<Rightarrow> Mutex \<Rightarrow> effect list \<times> Mutex" where
  "unlock u m =
     (if lockedOrPending m then
        (case localQueue m of
           next # rest \<Rightarrow> ([UnlockResolved u, LockResolved next], m\<lparr>localQueue := rest\<rparr>)
         | [] \<Rightarrow>
             (if waitingListener m = None then yieldLock (Some u) (m\<lparr>lockedOrPending := False\<rparr>)
              else ([UnlockResolved u], m\<lparr>lockedOrPending := False\<rparr>)))
      else ([UnlockRejected u NotLocked], m))"

text \<open>
  The handler of lines 56-65 on a \<^verbatim>\<open>'waiting'\<close> message: unsubscribe through the stored
  handle, clear it, and yield when the lock is only soft-held. The handler reads the
  field, not a captured handle, so with the field \<open>undefined\<close> the call throws.
  The rejection of the \<open>yieldLock()\<close> it starts goes to \<open>console.error\<close>.
\<close>

definition onWaiting :: "Mutex \<Rightarrow> effect list \<times> Mutex" where
  "onWaiting m =
     (case waitingListener m of
        None \<Rightarrow> ([ListenerThrew TypeError], m)
      | Some h \<Rightarrow>
          (let m1 = m\<lparr>listeners := removeAll (PeerWatch h) (listeners m),
                      waitingListener := None\<rparr>
           in if \<not> lockedOrPending m1 then yieldLock None m1 else ([], m1)))"

text \<open>
  One listener receiving one message: line 57, line 83 and line 136 test the message.
\<close>

fun handle :: "Message \<Rightarrow> listener \<Rightarrow> Mutex \<Rightarrow> effect list \<times> Mutex" where
  "handle waiting (PeerWatch c) m = onWaiting m"
| "handle unlocked (RetryOnUnlocked c) m = tryLock c m"
| "handle unlocked (YieldSettle p) m = ([], finish p m)"
| "handle msg l m = ([], m)"

text \<open>
  Modelled from the spec: the class \<open>Channel\<close> (\<^verbatim>\<open>~/storage/channel\<close>) is not among the
  sources. \<open>listen\<close> subscribes a handler and returns the function that unsubscribes it;
  a message that reaches the participant is handed to the listeners subscribed at that
  moment, in the order they subscribed, and a listener unsubscribed by an earlier
  handler of the same delivery is skipped. Delivery is best effort: a published message
  reaches another participant as a \<open>Deliver\<close> event, or never. A handler that throws is
  recorded and the delivery goes on; the handlers that could still run after a throw of
  the peer listener throw as well or ignore the message, so nothing depends on this.
\<close>

fun notify :: "Message \<Rightarrow> listener list \<Rightarrow> Mutex \<Rightarrow> effect list \<times> Mutex" where
  "notify msg [] m = ([], m)"
| "notify msg (l # ls) m =
     (if l \<in> set (listeners m) then
        (let (es, m1) = handle msg l m; (es', m2) = notify msg ls m1 in (es @ es', m2))
      else notify msg ls m)"

text \<open>
  The calls that \<open>resolve()\<close> of a yield promise has woken: suspended at line 53 on a
  promise whose \<open>finish\<close> has run (its listener is gone). They continue at line 56, in
  the order they were suspended, after the handlers that ran \<open>finish\<close> have returned.
\<close>

definition woken :: "Mutex \<Rightarrow> nat list" where
  "woken m =
     filter (\<lambda>c. case suspended m c of
                   Some (AwaitYield p) \<Rightarrow> YieldSettle p \<notin> set (listeners m)
                 | _ \<Rightarrow> False) [0..<calls m]"

fun resume :: "nat list \<Rightarrow> Mutex \<Rightarrow> effect list \<times> Mutex" where
  "resume [] m = ([], m)"
| "resume (c # cs) m =
     (let (es, m1) = acquire c m; (es', m2) = resume cs m1 in (es @ es', m2))"

definition wake :: "Mutex \<Rightarrow> effect list \<times> Mutex" where
  "wake m = resume (woken m) m"

text \<open>
  Lines 70-92 of \<open>lock()\<close>, entered when the first request answered false: the promise
  \<open>locked\<close>, the listener for \<^verbatim>\<open>'unlocked'\<close>, the interval timer of
  \<^verbatim>\<open>setInterval(tryLock, 500)\<close>, first due 500 milliseconds after the clock of the
  call, and the call \<open>tryLock()\<close> of line 91.
\<close>

definition contend :: "nat \<Rightarrow> Mutex \<Rightarrow> effect list \<times> Mutex" where
  "contend c m =
     tryLock c (m\<lparr>listeners := listeners m @ [RetryOnUnlocked c],
                  timers := timers m @ [Retry c],
                  due := (due m)(Retry c := now m + 500),
                  suspended := (suspended m)(c := Some Contended)\<rparr>)"

text \<open>
  \<open>lockedResolver.resolve()\<close> (\<open>r = None\<close>) or \<open>lockedResolver.reject(e)\<close>
  (\<open>r = Some e\<close>) of call \<open>c\<close>, and what follows the \<open>await\<close> of line 92: the \<open>finally\<close>
  block and the settling of the promise \<open>lock()\<close> returned. On a promise already
  settled both do nothing.
\<close>

definition settle :: "nat \<Rightarrow> error option \<Rightarrow> Mutex \<Rightarrow> effect list \<times> Mutex" where
  "settle c r m =
     (if suspended m c = Some Contended then
        ([case r of None \<Rightarrow> LockResolved c | Some e \<Rightarrow> LockRejected c e],
         m\<lparr>timers := removeAll (Retry c) (timers m),
           listeners := removeAll (RetryOnUnlocked c) (listeners m),
           suspended := (suspended m)(c := None)\<rparr>)
      else ([], m))"

text \<open>
  The arbiter's answer to a \<open>lockable.lock()\<close> of call \<open>c\<close>: \<open>Inr b\<close> is the boolean,
  \<open>Inl e\<close> a rejection. A call suspended at line 66 takes it there (lines 66-69);
  otherwise it answers one of the call's \<open>tryLock\<close> requests (lines 73-79). With no
  request of \<open>c\<close> open there is no such answer.
\<close>

definition lockReplied :: "nat \<Rightarrow> error + bool \<Rightarrow> Mutex \<Rightarrow> (effect list \<times> Mutex) option" where
  "lockReplied c r m =
     (if suspended m c = Some AwaitFirst then
        Some (case r of
                Inr True \<Rightarrow> ([LockResolved c], m\<lparr>suspended := (suspended m)(c := None)\<rparr>)
              | Inr False \<Rightarrow> contend c m
              | Inl e \<Rightarrow> ([LockRejected c e], m\<lparr>suspended := (suspended m)(c := None)\<rparr>))
      else if 0 < retrying m c then
        (let m1 = m\<lparr>retrying := (retrying m)(c := retrying m c - 1)\<rparr> in
         Some (case r of
                 Inr True \<Rightarrow> settle c None m1
               | Inr False \<Rightarrow> ([Publish waiting], m1)
               | Inl e \<Rightarrow> settle c (Some e) m1))
      else None)"

text \<open>
  The arbiter's answer to the \<open>lockable.unlock()\<close> of yield \<open>p\<close> (lines 141-142):
  on success the \<^verbatim>\<open>'unlocked'\<close> message is published and \<open>yieldLock()\<close> resolves, on a
  rejection it rejects. The outcome goes to the \<open>unlock()\<close> that awaits it (line 110)
  or, from line 62, a rejection goes to \<open>console.error\<close>.
\<close>

definition unlockReplied :: "nat \<Rightarrow> error option \<Rightarrow> Mutex \<Rightarrow> (effect list \<times> Mutex) option" where
  "unlockReplied p r m =
     (case releasing m p of
        None \<Rightarrow> None
      | Some u \<Rightarrow>
          Some ((case r of
                   None \<Rightarrow> Publish unlocked # (case u of Some t \<Rightarrow> [UnlockResolved t] | None \<Rightarrow> [])
                 | Some e \<Rightarrow> (case u of Some t \<Rightarrow> [UnlockRejected t e] | None \<Rightarrow> [ConsoleError e])),
                m\<lparr>releasing := (releasing m)(p := None)\<rparr>))"

text \<open>
  What can happen to a Mutex: a caller invokes \<open>lock()\<close> or \<open>unlock()\<close>, the channel
  delivers a message, time passes, a timer fires, the arbiter answers. \<open>step\<close> runs the
  event to the point where the event loop is idle again; \<open>None\<close> means the event cannot
  happen in that state (a timer that is not set or not due yet, an answer to a request
  that is not open). \<open>Elapse d\<close> moves the clock \<open>d\<close> milliseconds forward. A timer fires
  when it is due or later, never earlier; the interval timer is set again on each tick,
  for 500 milliseconds after the clock of the tick.
\<close>

datatype event =
    CallLock
  | CallUnlock nat
  | Deliver Message
  | Elapse nat
  | IntervalFires nat
  | TimeoutFires nat
  | LockReplied nat "error + bool"
  | UnlockReplied nat "error option"

fun step :: "Mutex \<Rightarrow> event \<Rightarrow> (effect list \<times> Mutex) option" where
  "step m CallLock = Some (lock m)"
| "step m (CallUnlock u) = Some (unlock u m)"
| "step m (Deliver msg) =
     Some (let (es, m1) = notify msg (listeners m) m; (es', m2) = wake m1 in (es @ es', m2))"
| "step m (Elapse d) = Some ([], m\<lparr>now := now m + d\<rparr>)"
| "step m (IntervalFires c) =
     (if Retry c \<in> set (timers m) \<and> due m (Retry c) \<le> now m then
        Some (tryLock c (m\<lparr>due := (due m)(Retry c := now m + 500)\<rparr>))
      else None)"
| "step m (TimeoutFires p) =
     (if YieldTimeout p \<in> set (timers m) \<and> due m (YieldTimeout p) \<le> now m then
        Some (wake (finish p m))
      else None)"
| "step m (LockReplied c r) = lockReplied c r m"
| "step m (UnlockReplied p r) = unlockReplied p r m"

text \<open>
  A run: the events in order, the effects concatenated. It stops with \<open>None\<close> at an
  event that cannot happen.
\<close>

fun run :: "Mutex \<Rightarrow> event list \<Rightarrow> (effect list \<times> Mutex) option" where
  "run m [] = Some ([], m)"
| "run m (e # es) =
     (case step m e of
        None \<Rightarrow> None
      | Some (out, m1) \<Rightarrow>
          (case run m1 es of None \<Rightarrow> None | Some (out', m2) \<Rightarrow> Some (out @ out', m2)))"

section \<open>Example states\<close>

text \<open>
  A soft-held Mutex: one uncontended \<open>lock()\<close>, answered true, then \<open>unlock()\<close>.
\<close>

definition soft_held_example :: Mutex where
  "soft_held_example =
     snd (the (run Mutex_init [CallLock, LockReplied 0 (Inr True), CallUnlock 7]))"

text \<open>
  A Mutex with one local waiter: two \<open>lock()\<close> calls, the arbiter not yet answering.
\<close>

definition queued_example :: Mutex where
  "queued_example = snd (the (run Mutex_init [CallLock, CallLock]))"

text \<open>
  A Mutex inside its critical section: one \<open>lock()\<close>, answered true.
\<close>

definition holder_example :: Mutex where
  "holder_example = snd (the (run Mutex_init [CallLock, LockReplied 0 (Inr True)]))"

text \<open>
  A Mutex in the contended wait: one \<open>lock()\<close>, answered false.
\<close>

definition contended_example :: Mutex where
  "contended_example = snd (the (run Mutex_init [CallLock, LockReplied 0 (Inr False)]))"

text \<open>
  The two Mutexes above after the arbiter's request failed: the first request of
  \<open>queued_example\<close>, the retry of \<open>contended_example\<close>.
\<close>

definition failed_example :: Mutex where
  "failed_example = snd (the (step queued_example (LockReplied 0 (Inl TransportError))))"

definition failed_retry_example :: Mutex where
  "failed_retry_example = snd (the (step contended_example (LockReplied 0 (Inl TransportError))))"

section \<open>Expected effects\<close>

text \<open>
  What successive \<open>unlock()\<close> calls with tags \<open>us\<close> do to the waiters \<open>q\<close> when they
  are served first in, first out: the i-th call returns and the i-th waiter resolves.
\<close>

definition grants :: "nat list \<Rightarrow> nat list \<Rightarrow> effect list" where
  "grants q us = concat (map (\<lambda>(c, u). [UnlockResolved u, LockResolved c]) (zip q us))"

text \<open>
  A Mutex whose first request to the arbiter is open: one \<open>lock()\<close>.
\<close>

definition first_example :: Mutex where
  "first_example = snd (the (run Mutex_init [CallLock]))"

text \<open>
  A holder that a peer has asked: \<open>lock()\<close> answered true, then a \<^verbatim>\<open>'waiting'\<close> message.
\<close>

definition peer_asked_example :: Mutex where
  "peer_asked_example =
     snd (the (run Mutex_init [CallLock, LockReplied 0 (Inr True), Deliver waiting]))"

text \<open>
  The same Mutex after \<open>unlock()\<close>: the yield is under way, the arbiter has not answered.
\<close>

definition yielding_example :: Mutex where
  "yielding_example = snd (the (run peer_asked_example [CallUnlock 7]))"

text \<open>
  And after one more \<open>lock()\<close>, which waits for the yield to settle.
\<close>

definition yield_wait_example :: Mutex where
  "yield_wait_example = snd (the (run yielding_example [CallLock]))"

text \<open>
  The contended wait and the yield above, 500 milliseconds later.
\<close>

definition tick_due_example :: Mutex where
  "tick_due_example = snd (the (step contended_example (Elapse 500)))"

definition yield_due_example :: Mutex where
  "yield_due_example = snd (the (step yield_wait_example (Elapse 500)))"

section \<open>scope\<close>

text \<open>
  \<^verbatim>\<open>async scope(callback)\<close> (lines 117-124). A promise settles with a value or with a
  failure. The call is suspended at line 118 (on its \<open>lock()\<close> call \<open>c\<close>), at line 120
  (on the callback's promise) or at line 122 (on \<open>unlock()\<close>, keeping the completion of
  the \<open>try\<close> block), or it has settled. \<open>callbacks\<close> and \<open>unlocks\<close> count the calls
  of \<open>callback()\<close> and of \<open>this.unlock()\<close> it has made.
\<close>

datatype 'a outcome = Returned 'a | Threw error

datatype 'a scope_phase =
    AwaitLock nat
  | AwaitCallback
  | AwaitUnlock "'a outcome"
  | Settled "'a outcome"

record 'a scope =
  phase :: "'a scope_phase"
  callbacks :: nat
  unlocks :: nat

text \<open>
  What the suspended \<open>scope\<close> call, whose \<open>unlock()\<close> carries the tag \<open>u\<close>, does when a
  promise settles. Line 118: when \<open>lock()\<close> resolves the callback is called, when it
  rejects \<open>scope\<close> rejects (the \<open>await\<close> is outside the \<open>try\<close>). Line 122, the
  \<open>finally\<close> block: when \<open>unlock()\<close> resolves the completion of the \<open>try\<close> block
  stands, when it rejects its failure replaces that completion.
\<close>

fun observe :: "nat \<Rightarrow> 'a scope \<Rightarrow> effect \<Rightarrow> 'a scope" where
  "observe u s (LockResolved c) =
     (if phase s = AwaitLock c then s\<lparr>phase := AwaitCallback, callbacks := Suc (callbacks s)\<rparr>
      else s)"
| "observe u s (LockRejected c e) =
     (if phase s = AwaitLock c then s\<lparr>phase := Settled (Threw e)\<rparr> else s)"
| "observe u s (UnlockResolved t) =
     (case phase s of
        AwaitUnlock r \<Rightarrow> (if t = u then s\<lparr>phase := Settled r\<rparr> else s)
      | _ \<Rightarrow> s)"
| "observe u s (UnlockRejected t e) =
     (case phase s of
        AwaitUnlock r \<Rightarrow> (if t = u then s\<lparr>phase := Settled (Threw e)\<rparr> else s)
      | _ \<Rightarrow> s)"
| "observe u s _ = s"


text \<open>
  A \<open>scope\<close> call and its Mutex: an event of the Mutex, whose effects the call
  observes, or the callback's promise settling with \<open>r\<close>, on which the \<open>finally\<close>
  block calls \<open>this.unlock()\<close>. The callback settles only while \<open>scope\<close> awaits it.
\<close>

datatype 'a scope_event = Env event | CallbackSettled "'a outcome"

fun scope_step ::
  "nat \<Rightarrow> 'a scope \<times> Mutex \<Rightarrow> 'a scope_event \<Rightarrow> (effect list \<times> 'a scope \<times> Mutex) option" where
  "scope_step u (s, m) (Env ev) =
     (case step m ev of
        None \<Rightarrow> None
      | Some (es, m') \<Rightarrow> Some (es, foldl (observe u) s es, m'))"
| "scope_step u (s, m) (CallbackSettled r) =
     (if phase s = AwaitCallback then
        (let (es, m') = unlock u m
         in Some (es, foldl (observe u) (s\<lparr>phase := AwaitUnlock r, unlocks := Suc (unlocks s)\<rparr>) es, m'))
      else None)"





section \<open>Several processes, one arbiter\<close>

text \<open>
  \<^verbatim>\<open>Lock.request(method)\<close> (lines 158-168) dispatches a request that reaches the host:
  \<^verbatim>\<open>'lock'\<close> to \<open>lock()\<close>, \<^verbatim>\<open>'unlock'\<close> to \<open>unlock()\<close>. The number in a request is the
  one of the \<open>lock()\<close> call or of the yield that sent it, so that the answer finds its
  way back; the host does not look at it.
\<close>

datatype request = ReqLock nat | ReqUnlock nat

fun serve :: "request \<Rightarrow> LockHost \<Rightarrow> event \<times> LockHost" where
  "serve (ReqLock c) h = (let (b, h') = LockHost_lock h in (LockReplied c (Inr b), h'))"
| "serve (ReqUnlock p) h = (UnlockReplied p None, LockHost_unlock h)"

fun request_of :: "effect \<Rightarrow> request option" where
  "request_of (ArbLock c) = Some (ReqLock c)"
| "request_of (ArbUnlock p) = Some (ReqUnlock p)"
| "request_of _ = None"

fun resolved_of :: "effect \<Rightarrow> nat option" where
  "resolved_of (LockResolved c) = Some c"
| "resolved_of _ = None"

text \<open>
  Modelled from the spec: the request/response transport (\<^verbatim>\<open>~/storage/responder\<close>) is
  not among the sources. A call of \<open>LockClient\<close> travels to the host as a request, the
  host runs it, and the answer travels back; a request or an answer may instead fail,
  and the caller then gets a rejection. Requests and answers of different calls are not
  ordered. The process that hosts the lock calls it directly; that is the schedule in
  which the request is served at once.

  The system: the host, the Mutex of every process (a process is a number), the
  requests and the answers under way, and the callers inside the critical section: the
  pair \<open>(i, c)\<close> is the caller of the \<open>lock()\<close> call \<open>c\<close> of process \<open>i\<close>, from the
  moment the call resolves until that caller calls \<open>unlock()\<close>.
\<close>

record system =
  host :: LockHost
  procs :: "nat \<Rightarrow> Mutex"
  requests :: "(nat \<times> request) multiset"
  replies :: "(nat \<times> event) multiset"
  inside :: "(nat \<times> nat) set"

definition system_init :: system where
  "system_init = \<lparr>host = LockHost_init, procs = (\<lambda>_. Mutex_init), requests = {#},
     replies = {#}, inside = {}\<rparr>"

text \<open>
  Process \<open>i\<close> has taken a step: its Mutex is updated, the requests it sent are under
  way, the callers whose \<open>lock()\<close> resolved are inside. Published messages are not
  kept: the channel may deliver any message to any process at any time.
\<close>

definition absorb :: "nat \<Rightarrow> effect list \<times> Mutex \<Rightarrow> system \<Rightarrow> system" where
  "absorb i r s =
     s\<lparr>procs := (procs s)(i := snd r),
       requests := requests s + mset (map (Pair i) (List.map_filter request_of (fst r))),
       inside := inside s \<union> set (map (Pair i) (List.map_filter resolved_of (fst r)))\<rparr>"

text \<open>
  The events a process takes whenever they come: a caller invokes \<open>lock()\<close>, a message
  is delivered, a timer fires. \<open>unlock()\<close> is called by a caller that is inside, and an
  answer is taken when it arrives.
\<close>

fun spontaneous :: "event \<Rightarrow> bool" where
  "spontaneous CallLock = True"
| "spontaneous (Deliver msg) = True"
| "spontaneous (Elapse d) = True"
| "spontaneous (IntervalFires c) = True"
| "spontaneous (TimeoutFires p) = True"
| "spontaneous _ = False"

fun rejection_of :: "request \<Rightarrow> event" where
  "rejection_of (ReqLock c) = LockReplied c (Inl TransportError)"
| "rejection_of (ReqUnlock p) = UnlockReplied p (Some TransportError)"

fun rejected :: "event \<Rightarrow> event option" where
  "rejected (LockReplied c r) = Some (LockReplied c (Inl TransportError))"
| "rejected (UnlockReplied p r) = Some (UnlockReplied p (Some TransportError))"
| "rejected _ = None"

text \<open>
  \<^item> \<open>At i ev\<close>: process \<open>i\<close> takes the spontaneous event \<open>ev\<close>;
  \<^item> \<open>Leave i c u\<close>: the caller \<open>(i, c)\<close>, which is inside, calls \<open>unlock()\<close>;
  \<^item> \<open>Serve i r\<close>: the host runs the request \<open>r\<close> of process \<open>i\<close>;
  \<^item> \<open>Reply i ev\<close>: the answer \<open>ev\<close> reaches process \<open>i\<close>;
  \<^item> \<open>FailRequest i r\<close>, \<open>FailReply i ev\<close>: the transport fails before or after the
    host has run the request.
\<close>

datatype sys_event =
    At nat event
  | Leave nat nat nat
  | Serve nat request
  | Reply nat event
  | FailRequest nat request
  | FailReply nat event

fun sys_step :: "system \<Rightarrow> sys_event \<Rightarrow> system option" where
  "sys_step s (At i ev) =
     (if spontaneous ev then map_option (\<lambda>r. absorb i r s) (step (procs s i) ev) else None)"
| "sys_step s (Leave i c u) =
     (if (i, c) \<in> inside s then
        map_option (\<lambda>r. absorb i r (s\<lparr>inside := inside s - {(i, c)}\<rparr>))
          (step (procs s i) (CallUnlock u))
      else None)"
| "sys_step s (Serve i r) =
     (if (i, r) \<in># requests s then
        (let (ev, h) = serve r (host s)
         in Some (s\<lparr>host := h, requests := requests s - {#(i, r)#},
                    replies := add_mset (i, ev) (replies s)\<rparr>))
      else None)"
| "sys_step s (Reply i ev) =
     (if (i, ev) \<in># replies s then
        map_option (\<lambda>r. absorb i r (s\<lparr>replies := replies s - {#(i, ev)#}\<rparr>))
          (step (procs s i) ev)
      else None)"
| "sys_step s (FailRequest i r) =
     (if (i, r) \<in># requests s then
        Some (s\<lparr>requests := requests s - {#(i, r)#},
                replies := add_mset (i, rejection_of r) (replies s)\<rparr>)
      else None)"
| "sys_step s (FailReply i ev) =
     (if (i, ev) \<in># replies s then
        map_option (\<lambda>ev'. s\<lparr>replies := add_mset (i, ev') (replies s - {#(i, ev)#})\<rparr>)
          (rejected ev)
      else None)"

fun sys_run :: "system \<Rightarrow> sys_event list \<Rightarrow> system option" where
  "sys_run s [] = Some s"
| "sys_run s (e # es) = (case sys_step s e of None \<Rightarrow> None | Some s1 \<Rightarrow> sys_run s1 es)"

text \<open>
  A Mutex is soft-held when it is not locked locally and its peer listener is still set.
\<close>

definition soft_held :: "Mutex \<Rightarrow> bool" where
  "soft_held m = (\<not> lockedOrPending m \<and> waitingListener m \<noteq> None)"

section \<open>The invariant behind mutual exclusion\<close>

text \<open>
  The \<open>lock()\<close> calls of a Mutex that are suspended at an \<open>await\<close>.
\<close>

definition live :: "Mutex \<Rightarrow> nat set" where
  "live m = {c. suspended m c \<noteq> None}"

text \<open>
  Every call number that a suspended call, a retry listener or a retry timer carries
  has been handed out: it is below the counter \<open>calls\<close>.
\<close>

definition bounded :: "Mutex \<Rightarrow> bool" where
  "bounded m =
     ((\<forall>c. suspended m c \<noteq> None \<longrightarrow> c < calls m)
      \<and> (\<forall>c. RetryOnUnlocked c \<in> set (listeners m) \<longrightarrow> c < calls m)
      \<and> (\<forall>c. Retry c \<in> set (timers m) \<longrightarrow> c < calls m))"

text \<open>
  A suspended call has set \<open>lockedOrPending\<close> (line 49) before it suspended.
\<close>

definition tidy :: "Mutex \<Rightarrow> bool" where
  "tidy m = (bounded m \<and> (live m \<noteq> {} \<longrightarrow> lockedOrPending m))"

text \<open>
  The requests a step sent to the arbiter, and the \<open>lock()\<close> calls it resolved.
\<close>

definition reqs :: "effect list \<Rightarrow> request list" where
  "reqs es = List.map_filter request_of es"

definition ress :: "effect list \<Rightarrow> nat list" where
  "ress es = List.map_filter resolved_of es"

text \<open>
  What a step of one Mutex can do, as far as the arbiter and the critical section are
  concerned. \<open>m\<close> is the Mutex before, \<open>es\<close> the effects, \<open>m'\<close> the Mutex after.
  \<^item> \<open>quiet\<close>: nobody enters or leaves, nothing is released; the step may send lock
    requests for calls that exist, and a suspended call may end rejected;
  \<^item> \<open>fast\<close>: a \<open>lock()\<close> on a soft-held Mutex resolves at once;
  \<^item> \<open>fresh\<close>: a \<open>lock()\<close> on an idle Mutex starts to acquire;
  \<^item> \<open>handoff\<close>: \<open>unlock()\<close> passes the lock to the next local waiter;
  \<^item> \<open>softened\<close>: \<open>unlock()\<close> leaves the Mutex soft-held;
  \<^item> \<open>yielded\<close>: the Mutex sends the arbiter's release and is idle;
  \<^item> \<open>granted c\<close>: the arbiter's answer true resolves the suspended call \<open>c\<close>.
\<close>

definition quiet :: "Mutex \<Rightarrow> effect list \<Rightarrow> Mutex \<Rightarrow> bool" where
  "quiet m es m' =
     (lockedOrPending m' = lockedOrPending m \<and> soft_held m' = soft_held m
      \<and> live m' \<subseteq> live m \<and> ress es = []
      \<and> (\<forall>r \<in> set (reqs es). \<exists>c. r = ReqLock c \<and> c < calls m')
      \<and> calls m \<le> calls m' \<and> bounded m')"

definition fast :: "Mutex \<Rightarrow> effect list \<Rightarrow> Mutex \<Rightarrow> bool" where
  "fast m es m' =
     (soft_held m \<and> lockedOrPending m' \<and> ress es = [calls m] \<and> reqs es = []
      \<and> live m' = live m \<and> calls m' = Suc (calls m) \<and> bounded m')"

definition fresh :: "Mutex \<Rightarrow> effect list \<Rightarrow> Mutex \<Rightarrow> bool" where
  "fresh m es m' =
     (\<not> lockedOrPending m \<and> \<not> soft_held m \<and> lockedOrPending m'
      \<and> live m' = insert (calls m) (live m) \<and> ress es = []
      \<and> (\<forall>r \<in> set (reqs es). r = ReqLock (calls m))
      \<and> calls m' = Suc (calls m) \<and> bounded m')"

definition handoff :: "Mutex \<Rightarrow> effect list \<Rightarrow> Mutex \<Rightarrow> bool" where
  "handoff m es m' =
     (lockedOrPending m \<and> lockedOrPending m' \<and> (\<exists>c. ress es = [c]) \<and> reqs es = []
      \<and> live m' = live m \<and> calls m' = calls m \<and> bounded m')"

definition softened :: "Mutex \<Rightarrow> effect list \<Rightarrow> Mutex \<Rightarrow> bool" where
  "softened m es m' =
     (lockedOrPending m \<and> soft_held m' \<and> ress es = [] \<and> reqs es = []
      \<and> live m' = live m \<and> calls m' = calls m \<and> bounded m')"

definition yielded :: "Mutex \<Rightarrow> effect list \<Rightarrow> Mutex \<Rightarrow> bool" where
  "yielded m es m' =
     (\<not> lockedOrPending m' \<and> \<not> soft_held m' \<and> ress es = [] \<and> (\<exists>p. reqs es = [ReqUnlock p])
      \<and> live m' = live m \<and> calls m' = calls m \<and> bounded m')"

definition granted :: "nat \<Rightarrow> Mutex \<Rightarrow> effect list \<Rightarrow> Mutex \<Rightarrow> bool" where
  "granted c m es m' =
     (suspended m c \<noteq> None \<and> live m' = live m - {c} \<and> ress es = [c] \<and> reqs es = []
      \<and> lockedOrPending m' = lockedOrPending m \<and> soft_held m' = soft_held m
      \<and> calls m' = calls m \<and> bounded m')"

text \<open>
  The invariant, for one Mutex \<open>i\<close>. \<open>ow\<close> is the Mutex on whose request the host
  last set \<open>locked\<close>, \<open>None\<close> when the host is free; \<open>ins\<close> are the callers of \<open>i\<close>
  inside the critical section; \<open>rq\<close> and \<open>rp\<close> count the requests of \<open>i\<close> and the
  answers to \<open>i\<close> that are under way.
  \<^item> \<open>p_hold\<close>: a Mutex with a caller inside, or soft-held, owns the host's lock;
  \<^item> \<open>p_release\<close>: a release under way comes from the owner, which then has nobody
    inside and is not soft-held, and it is the only release of that Mutex under way;
  \<^item> \<open>p_grant\<close>: an answer true under way to a call that still waits for it was given
    to the owner, and no release of that Mutex is under way;
  \<^item> \<open>p_local\<close>: at most one call is suspended; while a caller is inside, none is,
    \<open>lockedOrPending\<close> is set, and nobody else of the same Mutex is inside;
  \<^item> \<open>p_fresh\<close>: requests and answers under way carry numbers of calls that exist,
    and what is under way to a Mutex is an answer.
\<close>

definition p_hold :: "nat option \<Rightarrow> nat \<Rightarrow> Mutex \<Rightarrow> nat set \<Rightarrow> bool" where
  "p_hold ow i m ins = (ins \<noteq> {} \<or> soft_held m \<longrightarrow> ow = Some i)"

definition p_release :: "nat option \<Rightarrow> nat \<Rightarrow> Mutex \<Rightarrow> nat set \<Rightarrow> (request \<Rightarrow> nat) \<Rightarrow> bool" where
  "p_release ow i m ins rq =
     (\<forall>p. 0 < rq (ReqUnlock p) \<longrightarrow>
        ow = Some i \<and> ins = {} \<and> \<not> soft_held m \<and> rq (ReqUnlock p) = 1
        \<and> (\<forall>q. 0 < rq (ReqUnlock q) \<longrightarrow> q = p))"

definition p_grant ::
  "nat option \<Rightarrow> nat \<Rightarrow> Mutex \<Rightarrow> (request \<Rightarrow> nat) \<Rightarrow> (event \<Rightarrow> nat) \<Rightarrow> bool" where
  "p_grant ow i m rq rp =
     (\<forall>c. 0 < rp (LockReplied c (Inr True)) \<and> suspended m c \<noteq> None \<longrightarrow>
        ow = Some i \<and> (\<forall>p. rq (ReqUnlock p) = 0))"

definition p_local :: "Mutex \<Rightarrow> nat set \<Rightarrow> bool" where
  "p_local m ins =
     (tidy m
      \<and> (\<forall>c d. c \<in> live m \<and> d \<in> live m \<longrightarrow> c = d)
      \<and> (ins \<noteq> {} \<longrightarrow>
           lockedOrPending m \<and> live m = {} \<and> (\<forall>c d. c \<in> ins \<and> d \<in> ins \<longrightarrow> c = d)))"

definition p_fresh :: "Mutex \<Rightarrow> (request \<Rightarrow> nat) \<Rightarrow> (event \<Rightarrow> nat) \<Rightarrow> bool" where
  "p_fresh m rq rp =
     ((\<forall>c r. 0 < rp (LockReplied c r) \<longrightarrow> c < calls m)
      \<and> (\<forall>c. 0 < rq (ReqLock c) \<longrightarrow> c < calls m)
      \<and> (\<forall>ev. 0 < rp ev \<longrightarrow> rejected ev \<noteq> None))"

definition pinv ::
  "nat option \<Rightarrow> nat \<Rightarrow> Mutex \<Rightarrow> nat set \<Rightarrow> (request \<Rightarrow> nat) \<Rightarrow> (event \<Rightarrow> nat) \<Rightarrow> bool" where
  "pinv ow i m ins rq rp =
     (p_hold ow i m ins \<and> p_release ow i m ins rq \<and> p_grant ow i m rq rp \<and> p_local m ins
      \<and> p_fresh m rq rp)"

text \<open>
  The requests of a Mutex under way after a step with effects \<open>es\<close>.
\<close>

definition sent :: "(request \<Rightarrow> nat) \<Rightarrow> effect list \<Rightarrow> request \<Rightarrow> nat" where
  "sent rq es = (\<lambda>r. rq r + count_list (reqs es) r)"

text \<open>
  The part of the system that belongs to Mutex \<open>i\<close>, and the invariant of the system.
\<close>

definition ins_of :: "system \<Rightarrow> nat \<Rightarrow> nat set" where
  "ins_of s i = {c. (i, c) \<in> inside s}"

definition rq_of :: "system \<Rightarrow> nat \<Rightarrow> request \<Rightarrow> nat" where
  "rq_of s i r = count (requests s) (i, r)"

definition rp_of :: "system \<Rightarrow> nat \<Rightarrow> event \<Rightarrow> nat" where
  "rp_of s i ev = count (replies s) (i, ev)"

definition sys_inv :: "nat option \<Rightarrow> system \<Rightarrow> bool" where
  "sys_inv ow s =
     (((ow = None) = (\<not> locked (host s)))
      \<and> (\<forall>j. pinv ow j (procs s j) (ins_of s j) (rq_of s j) (rp_of s j)))"

text \<open>
  Two processes: the first has acquired the lock and is inside, the second has asked
  the arbiter and its answer, false, is under way.
\<close>

definition contention_example :: system where
  "contention_example =
     the (sys_run system_init
       [At 0 CallLock, Serve 0 (ReqLock 0), Reply 0 (LockReplied 0 (Inr True)),
        At 1 CallLock, Serve 1 (ReqLock 0)])"

section \<open>The invariant behind the yield handshake\<close>

text \<open>
  What every state of a Mutex satisfies, whatever its callers, the channel, the timers
  and the arbiter do:
  \<^item> a suspended call has a number that was handed out;
  \<^item> while \<open>yieldPromise\<close> is set \<open>waitingListener\<close> is not, and the listener of the
    promise is subscribed;
  \<^item> a call suspended at line 53 waits for a promise whose listener is subscribed;
  \<^item> a retry listener or a retry timer belongs to a call suspended at line 92.

  Between the handlers of a delivery and the continuations they woke the third item
  reads: a call suspended at line 53 whose promise has settled finds \<open>yieldPromise\<close>
  cleared.
\<close>

definition k_bound :: "Mutex \<Rightarrow> bool" where
  "k_bound m = (\<forall>c. suspended m c \<noteq> None \<longrightarrow> c < calls m)"

definition k_promise :: "Mutex \<Rightarrow> bool" where
  "k_promise m =
     ((yieldPromise m \<noteq> None \<longrightarrow> waitingListener m = None)
      \<and> (\<forall>p. yieldPromise m = Some p \<longrightarrow> YieldSettle p \<in> set (listeners m)))"

definition k_await :: "Mutex \<Rightarrow> bool" where
  "k_await m =
     (\<forall>c p. suspended m c = Some (AwaitYield p) \<longrightarrow> YieldSettle p \<in> set (listeners m))"

definition k_woken :: "Mutex \<Rightarrow> bool" where
  "k_woken m =
     (\<forall>c p. suspended m c = Some (AwaitYield p) \<longrightarrow>
        YieldSettle p \<in> set (listeners m) \<or> yieldPromise m = None)"

definition k_retry :: "Mutex \<Rightarrow> bool" where
  "k_retry m =
     (\<forall>c. RetryOnUnlocked c \<in> set (listeners m) \<or> Retry c \<in> set (timers m) \<longrightarrow>
        suspended m c = Some Contended)"

definition coherent :: "Mutex \<Rightarrow> bool" where
  "coherent m = (k_bound m \<and> k_promise m \<and> k_await m \<and> k_retry m)"

definition settling :: "Mutex \<Rightarrow> bool" where
  "settling m = (k_bound m \<and> k_promise m \<and> k_woken m \<and> k_retry m)"

section \<open>Properties of the arbiter\<close>

text \<open>
  C3. On an unoccupied host \<open>lock\<close> sets \<open>locked\<close> and returns true; on an occupied host
  it returns false and leaves the state as it is; \<open>unlock\<close> clears \<open>locked\<close> whatever
  its value was, so two consecutive releases leave the same state as one.
\<close>

theorem LockHost_semantics:
  "(\<not> locked h \<longrightarrow> fst (LockHost_lock h) = True \<and> locked (snd (LockHost_lock h)))
   \<and> (locked h \<longrightarrow> LockHost_lock h = (False, h))
   \<and> \<not> locked (LockHost_unlock h)
   \<and> LockHost_unlock (LockHost_unlock h) = LockHost_unlock h"
  by (simp add: LockHost_lock_def LockHost_unlock_def)

theorem LockHost_semantics_witness:
  "fst (LockHost_lock LockHost_init) = True
   \<and> locked (snd (LockHost_lock LockHost_init))
   \<and> LockHost_lock (snd (LockHost_lock LockHost_init)) = (False, snd (LockHost_lock LockHost_init))
   \<and> \<not> locked (LockHost_unlock LockHost_init)
   \<and> LockHost_unlock (LockHost_unlock LockHost_init) = LockHost_unlock LockHost_init"
  using LockHost_semantics [of LockHost_init]
    LockHost_semantics [of "snd (LockHost_lock LockHost_init)"]
  by (simp add: LockHost_init_def LockHost_lock_def LockHost_unlock_def)

section \<open>Properties of the Mutex\<close>

lemmas Mutex_defs = Mutex_init_def lock_def unlock_def acquire_def yieldLock_def finish_def
  tryLock_def onWaiting_def woken_def wake_def contend_def settle_def lockReplied_def
  unlockReplied_def Let_def

lemma soft_held_example_fields:
  "\<not> lockedOrPending soft_held_example" "waitingListener soft_held_example = Some 0"
  "localQueue soft_held_example = []" "calls soft_held_example = 1"
  by (simp_all add: soft_held_example_def Mutex_defs)

lemma queued_example_fields:
  "lockedOrPending queued_example" "localQueue queued_example = [1]"
  by (simp_all add: queued_example_def Mutex_defs)

text \<open>
  C4. In a state with \<open>lockedOrPending\<close> false and \<open>waitingListener\<close> set, \<open>lock()\<close>
  sets \<open>lockedOrPending\<close> and resolves at once; its only effect is the resolution of
  the call, so there is no request to the arbiter and no message. A soft-held Mutex
  with no local waiter is back in the same state (one more call counted) after
  \<open>lock()\<close> and \<open>unlock()\<close>. From a fresh Mutex, an uncontended acquire and release
  followed by a second \<open>lock()\<close>/\<open>unlock()\<close> asks the arbiter once, for the first
  acquisition, and again only when a peer's \<^verbatim>\<open>'waiting'\<close> makes it yield.
\<close>

theorem soft_held_fast_path:
  "(\<not> lockedOrPending m \<and> waitingListener m \<noteq> None \<longrightarrow>
      step m CallLock =
        Some ([LockResolved (calls m)], m\<lparr>lockedOrPending := True, calls := Suc (calls m)\<rparr>))
   \<and> (\<not> lockedOrPending m \<and> waitingListener m \<noteq> None \<and> localQueue m = [] \<longrightarrow>
      run m [CallLock, CallUnlock u] =
        Some ([LockResolved (calls m), UnlockResolved u], m\<lparr>calls := Suc (calls m)\<rparr>))
   \<and> map_option fst (run Mutex_init
        [CallLock, LockReplied 0 (Inr True), CallUnlock u1, CallLock, CallUnlock u2, Deliver waiting])
      = Some [ArbLock 0, LockResolved 0, UnlockResolved u1, LockResolved 1, UnlockResolved u2,
              ArbUnlock 0]"
proof (intro conjI impI)
  assume "\<not> lockedOrPending m \<and> waitingListener m \<noteq> None"
  then show "step m CallLock =
      Some ([LockResolved (calls m)], m\<lparr>lockedOrPending := True, calls := Suc (calls m)\<rparr>)"
    by (simp add: lock_def Let_def)
next
  assume "\<not> lockedOrPending m \<and> waitingListener m \<noteq> None \<and> localQueue m = []"
  then show "run m [CallLock, CallUnlock u] =
      Some ([LockResolved (calls m), UnlockResolved u], m\<lparr>calls := Suc (calls m)\<rparr>)"
    by (cases m) (auto simp add: lock_def unlock_def Let_def)
next
  show "map_option fst (run Mutex_init
        [CallLock, LockReplied 0 (Inr True), CallUnlock u1, CallLock, CallUnlock u2, Deliver waiting])
      = Some [ArbLock 0, LockResolved 0, UnlockResolved u1, LockResolved 1, UnlockResolved u2,
              ArbUnlock 0]"
    by (simp add: Mutex_defs)
qed

theorem soft_held_fast_path_witness:
  "\<not> lockedOrPending soft_held_example \<and> waitingListener soft_held_example \<noteq> None
   \<and> localQueue soft_held_example = []
   \<and> step soft_held_example CallLock =
        Some ([LockResolved 1], soft_held_example\<lparr>lockedOrPending := True, calls := 2\<rparr>)
   \<and> run soft_held_example [CallLock, CallUnlock 8] =
        Some ([LockResolved 1, UnlockResolved 8], soft_held_example\<lparr>calls := 2\<rparr>)"
proof -
  have h: "\<not> lockedOrPending soft_held_example \<and> waitingListener soft_held_example \<noteq> None
      \<and> localQueue soft_held_example = []"
    by (simp add: soft_held_example_fields)
  have c: "calls soft_held_example = 1"
    by (simp add: soft_held_example_fields)
  from soft_held_fast_path [of soft_held_example 8] h
  have "step soft_held_example CallLock =
        Some ([LockResolved (calls soft_held_example)],
              soft_held_example\<lparr>lockedOrPending := True, calls := Suc (calls soft_held_example)\<rparr>)"
    and "run soft_held_example [CallLock, CallUnlock 8] =
        Some ([LockResolved (calls soft_held_example), UnlockResolved 8],
              soft_held_example\<lparr>calls := Suc (calls soft_held_example)\<rparr>)"
    by blast+
  with h show ?thesis by (simp add: c)
qed

text \<open>
  C5. With \<open>lockedOrPending\<close> false, \<open>unlock()\<close> throws \<^verbatim>\<open>'Not locked'\<close> in the call
  itself: the only effect is the rejection of that call (no request to the arbiter, no
  message), and the state, with every field and everything the event loop holds, is
  the one before the call. A fresh Mutex is such a state.
\<close>

theorem unlock_not_locked:
  "(\<not> lockedOrPending m \<longrightarrow> step m (CallUnlock u) = Some ([UnlockRejected u NotLocked], m))
   \<and> step Mutex_init (CallUnlock u) = Some ([UnlockRejected u NotLocked], Mutex_init)"
  by (simp add: unlock_def Mutex_init_def)

theorem unlock_not_locked_witness:
  "\<not> lockedOrPending soft_held_example
   \<and> step soft_held_example (CallUnlock 3) = Some ([UnlockRejected 3 NotLocked], soft_held_example)"
  using unlock_not_locked [of soft_held_example 3]
  by (simp add: soft_held_example_fields)

text \<open>
  C7. With \<open>lockedOrPending\<close> true and a local waiter queued, \<open>unlock()\<close> removes the
  oldest waiter from \<open>localQueue\<close> and resolves it; nothing else of the state changes
  (\<open>lockedOrPending\<close> stays true), and the effects are the return of \<open>unlock()\<close> and
  that resolution: no request to the arbiter, no message.
\<close>

theorem unlock_local_handoff:
  "lockedOrPending m \<Longrightarrow> localQueue m \<noteq> [] \<Longrightarrow>
     step m (CallUnlock u) =
       Some ([UnlockResolved u, LockResolved (hd (localQueue m))],
             m\<lparr>localQueue := tl (localQueue m)\<rparr>)"
  by (cases "localQueue m") (simp_all add: unlock_def)

theorem unlock_local_handoff_witness:
  "lockedOrPending queued_example \<and> localQueue queued_example \<noteq> []
   \<and> step queued_example (CallUnlock 5) =
       Some ([UnlockResolved 5, LockResolved 1], queued_example\<lparr>localQueue := []\<rparr>)"
  using unlock_local_handoff [of queued_example 5]
  by (simp add: queued_example_fields)

lemma holder_example_fields:
  "lockedOrPending holder_example" "localQueue holder_example = []" "calls holder_example = 1"
  by (simp_all add: holder_example_def Mutex_defs)

lemma contended_example_fields:
  "lockedOrPending contended_example" "suspended contended_example 0 = Some Contended"
  "retrying contended_example 0 = 1"
  by (simp_all add: contended_example_def Mutex_defs)

lemma queued_example_suspended: "suspended queued_example 0 = Some AwaitFirst"
  by (simp add: queued_example_def Mutex_defs)

lemma run_append:
  "run m (xs @ ys) =
     (case run m xs of
        None \<Rightarrow> None
      | Some (o1, m1) \<Rightarrow> (case run m1 ys of None \<Rightarrow> None | Some (o2, m2) \<Rightarrow> Some (o1 @ o2, m2)))"
  by (induction xs arbitrary: m) (auto split: option.splits)

lemma lock_queued:
  "lockedOrPending m \<Longrightarrow>
     lock m = ([], m\<lparr>localQueue := localQueue m @ [calls m], calls := Suc (calls m)\<rparr>)"
  by (simp add: lock_def Let_def)

lemma locks_queued:
  "lockedOrPending m \<Longrightarrow>
     run m (replicate n CallLock) =
       Some ([], m\<lparr>localQueue := localQueue m @ [calls m..<calls m + n], calls := calls m + n\<rparr>)"
proof (induction n arbitrary: m)
  case 0
  then show ?case by simp
next
  case (Suc n)
  let ?m1 = "m\<lparr>localQueue := localQueue m @ [calls m], calls := Suc (calls m)\<rparr>"
  have "lockedOrPending ?m1" using Suc.prems by simp
  from Suc.IH [OF this] show ?case
    using Suc.prems by (simp add: lock_queued upt_conv_Cons del: upt_Suc)
qed

lemma unlocks_grant:
  "lockedOrPending m \<Longrightarrow> length us \<le> length (localQueue m) \<Longrightarrow>
     run m (map CallUnlock us) =
       Some (grants (localQueue m) us, m\<lparr>localQueue := drop (length us) (localQueue m)\<rparr>)"
proof (induction us arbitrary: m)
  case Nil
  then show ?case by (simp add: grants_def)
next
  case (Cons u us)
  then obtain c q where q: "localQueue m = c # q" by (cases "localQueue m") auto
  let ?m1 = "m\<lparr>localQueue := q\<rparr>"
  have "lockedOrPending ?m1" "length us \<le> length (localQueue ?m1)"
    using Cons.prems q by simp_all
  from Cons.IH [OF this] show ?case
    using Cons.prems q by (simp add: unlock_def grants_def)
qed

text \<open>
  C6. While \<open>lockedOrPending\<close> is true, \<open>n\<close> calls of \<open>lock()\<close> append their waiters
  to \<open>localQueue\<close> in the order of the calls, with no effect outside; the \<open>unlock()\<close>
  calls that follow resolve the waiters one by one in that order, the waiters already
  queued first.
\<close>

theorem local_fifo:
  "lockedOrPending m \<Longrightarrow> length us \<le> length (localQueue m) + n \<Longrightarrow>
     run m (replicate n CallLock) =
       Some ([], m\<lparr>localQueue := localQueue m @ [calls m..<calls m + n], calls := calls m + n\<rparr>)
     \<and> run m (replicate n CallLock @ map CallUnlock us) =
       Some (grants (localQueue m @ [calls m..<calls m + n]) us,
             m\<lparr>localQueue := drop (length us) (localQueue m @ [calls m..<calls m + n]),
               calls := calls m + n\<rparr>)"
proof -
  assume lp: "lockedOrPending m" and len: "length us \<le> length (localQueue m) + n"
  let ?m1 = "m\<lparr>localQueue := localQueue m @ [calls m..<calls m + n], calls := calls m + n\<rparr>"
  have a: "run m (replicate n CallLock) = Some ([], ?m1)"
    using lp by (rule locks_queued)
  have "lockedOrPending ?m1" "length us \<le> length (localQueue ?m1)"
    using lp len by simp_all
  from unlocks_grant [OF this] have b: "run ?m1 (map CallUnlock us) =
      Some (grants (localQueue m @ [calls m..<calls m + n]) us,
            m\<lparr>localQueue := drop (length us) (localQueue m @ [calls m..<calls m + n]),
              calls := calls m + n\<rparr>)"
    by simp
  show ?thesis using a b by (simp add: run_append)
qed

theorem local_fifo_witness:
  "lockedOrPending holder_example
   \<and> length [10, 11, 12 :: nat] \<le> length (localQueue holder_example) + 3
   \<and> map_option fst (run holder_example (replicate 3 CallLock @ map CallUnlock [10, 11, 12])) =
       Some [UnlockResolved 10, LockResolved 1, UnlockResolved 11, LockResolved 2,
             UnlockResolved 12, LockResolved 3]"
  using local_fifo [of holder_example "[10, 11, 12]" 3]
  by (simp add: holder_example_fields grants_def upt_conv_Cons)

lemma handle_frame:
  "lockedOrPending (snd (handle msg l m)) = lockedOrPending m"
  "localQueue (snd (handle msg l m)) = localQueue m"
  by (cases msg; cases l; simp add: onWaiting_def yieldLock_def tryLock_def finish_def Let_def
        split: option.splits)+

lemma notify_frame:
  "lockedOrPending (snd (notify msg ls m)) = lockedOrPending m
   \<and> localQueue (snd (notify msg ls m)) = localQueue m"
proof (induction ls arbitrary: m)
  case Nil
  then show ?case by simp
next
  case (Cons l ls)
  show ?case
    using Cons.IH [of "snd (handle msg l m)"] Cons.IH [of m] handle_frame [of msg l m]
    by (simp add: split_beta Let_def)
qed

lemma resume_frame:
  "lockedOrPending (snd (resume cs m)) = lockedOrPending m
   \<and> localQueue (snd (resume cs m)) = localQueue m"
proof (induction cs arbitrary: m)
  case Nil
  then show ?case by simp
next
  case (Cons c cs)
  show ?case
    using Cons.IH [of "snd (acquire c m)"]
    by (simp add: split_beta Let_def acquire_def)
qed

lemma step_frame:
  assumes "step m ev = Some (es, m')" and "ev \<noteq> CallLock" and "\<And>u. ev \<noteq> CallUnlock u"
  shows "lockedOrPending m' = lockedOrPending m \<and> localQueue m' = localQueue m"
proof (cases ev)
  case CallLock
  with assms show ?thesis by simp
next
  case (CallUnlock u)
  with assms(3) [of u] show ?thesis by simp
next
  case (Deliver msg)
  with assms have "m' = snd (wake (snd (notify msg (listeners m) m)))"
    by (auto simp add: split_beta Let_def)
  then show ?thesis
    using notify_frame [of msg "listeners m" m]
      resume_frame [of "woken (snd (notify msg (listeners m) m))" "snd (notify msg (listeners m) m)"]
    by (simp add: wake_def)
next
  case (Elapse d)
  with assms show ?thesis by auto
next
  case (IntervalFires c)
  with assms show ?thesis by (auto simp add: tryLock_def split: if_splits)
next
  case (TimeoutFires p)
  with assms have "m' = snd (wake (finish p m))" by (auto split: if_splits)
  then show ?thesis
    using resume_frame [of "woken (finish p m)" "finish p m"]
    by (simp add: wake_def finish_def)
next
  case (LockReplied c r)
  with assms show ?thesis
    by (auto simp add: lockReplied_def contend_def tryLock_def settle_def Let_def
        split: if_splits sum.splits bool.splits)
next
  case (UnlockReplied p r)
  with assms show ?thesis
    by (auto simp add: unlockReplied_def split: option.splits)
qed

lemma step_keeps_pending:
  assumes "step m ev = Some (es, m')" and "\<And>u. ev \<noteq> CallUnlock u" and "lockedOrPending m"
  shows "lockedOrPending m'"
proof (cases "ev = CallLock")
  case True
  with assms show ?thesis by (auto simp add: lock_def Let_def)
next
  case False
  with assms step_frame [of m ev es m'] show ?thesis by simp
qed

lemma run_keeps_pending:
  "run m evs = Some (es, m') \<Longrightarrow> \<forall>u. CallUnlock u \<notin> set evs \<Longrightarrow> lockedOrPending m \<Longrightarrow>
     lockedOrPending m'"
proof (induction evs arbitrary: m es)
  case Nil
  then show ?case by simp
next
  case (Cons ev evs)
  from Cons.prems(1) obtain o1 m1 o2 where
    s: "step m ev = Some (o1, m1)" and r: "run m1 evs = Some (o2, m')"
    by (auto split: option.splits)
  have "lockedOrPending m1"
    using step_keeps_pending [OF s] Cons.prems by auto
  with Cons.IH [OF r] Cons.prems show ?case by simp
qed

lemma handle_effects:
  "e \<in> set (fst (handle msg l m)) \<Longrightarrow>
     (\<exists>c. e = ArbLock c) \<or> (\<exists>p. e = ArbUnlock p) \<or> e = ListenerThrew TypeError"
  by (cases msg; cases l)
     (auto simp add: onWaiting_def yieldLock_def tryLock_def Let_def split: option.splits if_splits)

lemma notify_effects:
  "e \<in> set (fst (notify msg ls m)) \<Longrightarrow>
     (\<exists>c. e = ArbLock c) \<or> (\<exists>p. e = ArbUnlock p) \<or> e = ListenerThrew TypeError"
proof (induction ls arbitrary: m)
  case Nil
  then show ?case by simp
next
  case (Cons l ls)
  show ?case
  proof (cases "l \<in> set (listeners m)")
    case True
    with Cons.prems have "e \<in> set (fst (handle msg l m))
        \<or> e \<in> set (fst (notify msg ls (snd (handle msg l m))))"
      by (auto simp add: split_beta)
    then show ?thesis using handle_effects Cons.IH by blast
  next
    case False
    with Cons.prems Cons.IH show ?thesis by simp
  qed
qed

lemma handle_suspended:
  "suspended (snd (handle msg l m)) = suspended m"
  by (cases msg; cases l; simp add: onWaiting_def yieldLock_def tryLock_def finish_def Let_def
        split: option.splits)+

lemma notify_suspended:
  "suspended (snd (notify msg ls m)) = suspended m"
proof (induction ls arbitrary: m)
  case Nil
  then show ?case by simp
next
  case (Cons l ls)
  show ?case
    using Cons.IH [of "snd (handle msg l m)"] Cons.IH [of m] handle_suspended [of msg l m]
    by (simp add: split_beta)
qed

lemma woken_none: "\<forall>d. suspended m d = None \<Longrightarrow> woken m = []"
  by (simp add: woken_def)

lemma step_wedged:
  assumes "step m ev = Some (es, m')" and "\<And>u. ev \<noteq> CallUnlock u"
    and "lockedOrPending m" and "\<forall>d. suspended m d = None"
  shows "(\<forall>d. suspended m' d = None) \<and> (\<forall>d. LockResolved d \<notin> set es)"
proof (cases ev)
  case CallLock
  with assms show ?thesis by (auto simp add: lock_def Let_def)
next
  case (CallUnlock u)
  with assms(2) [of u] show ?thesis by simp
next
  case (Deliver msg)
  let ?m1 = "snd (notify msg (listeners m) m)"
  have s1: "\<forall>d. suspended ?m1 d = None"
    using assms(4) by (simp add: notify_suspended)
  then have w: "wake ?m1 = ([], ?m1)" by (simp add: wake_def woken_none)
  from assms(1) Deliver w have "es = fst (notify msg (listeners m) m)" "m' = ?m1"
    by (auto simp add: split_beta Let_def)
  with s1 notify_effects [of _ msg "listeners m" m] show ?thesis by auto
next
  case (Elapse d)
  with assms show ?thesis by auto
next
  case (IntervalFires c)
  with assms show ?thesis by (auto simp add: tryLock_def split: if_splits)
next
  case (TimeoutFires p)
  have "\<forall>d. suspended (finish p m) d = None" using assms(4) by (simp add: finish_def)
  then have "wake (finish p m) = ([], finish p m)" by (simp add: wake_def woken_none)
  with assms TimeoutFires show ?thesis by (auto simp add: finish_def split: if_splits)
next
  case (LockReplied c r)
  with assms show ?thesis
    by (cases r) (auto simp add: lockReplied_def settle_def Let_def split: if_splits bool.splits)
next
  case (UnlockReplied p r)
  with assms show ?thesis
    by (auto simp add: unlockReplied_def split: option.splits)
qed

lemma run_wedged:
  "run m evs = Some (es, m') \<Longrightarrow> \<forall>u. CallUnlock u \<notin> set evs \<Longrightarrow> lockedOrPending m \<Longrightarrow>
   \<forall>d. suspended m d = None \<Longrightarrow> \<forall>d. LockResolved d \<notin> set es"
proof (induction evs arbitrary: m es)
  case Nil
  then show ?case by simp
next
  case (Cons ev evs)
  from Cons.prems(1) obtain o1 m1 o2 where
    s: "step m ev = Some (o1, m1)" and r: "run m1 evs = Some (o2, m')" and es: "es = o1 @ o2"
    by (auto split: option.splits)
  have nu: "\<And>u. ev \<noteq> CallUnlock u" using Cons.prems(2) by auto
  from step_wedged [OF s nu Cons.prems(3,4)]
  have a: "\<forall>d. suspended m1 d = None" and b: "\<forall>d. LockResolved d \<notin> set o1" by simp_all
  have lp: "lockedOrPending m1" using step_keeps_pending [OF s nu Cons.prems(3)] .
  from Cons.IH [OF r _ lp a] Cons.prems(2) have "\<forall>d. LockResolved d \<notin> set o2" by simp
  with b es show ?case by simp
qed

lemma failed_example_step:
  "step queued_example (LockReplied 0 (Inl TransportError)) =
     Some ([LockRejected 0 TransportError], failed_example)"
  "step contended_example (LockReplied 0 (Inl TransportError)) =
     Some ([LockRejected 0 TransportError], failed_retry_example)"
  by (simp_all add: failed_example_def failed_retry_example_def queued_example_def
      contended_example_def Mutex_defs)

lemma failed_example_only:
  "\<forall>d. suspended queued_example d \<noteq> None \<longrightarrow> d = 0"
  "\<forall>d. suspended contended_example d \<noteq> None \<longrightarrow> d = 0"
  "suspended queued_example = [0 \<mapsto> AwaitFirst]"
  by (simp_all add: queued_example_def contended_example_def Mutex_defs)

lemma failed_example_run:
  "\<exists>m''. run failed_example [CallLock, Deliver waiting, CallLock] = Some ([], m'')"
  "\<exists>m''. run failed_retry_example [CallLock, Deliver unlocked] = Some ([], m'')"
  by (simp_all add: failed_example_def failed_retry_example_def queued_example_def
      contended_example_def Mutex_defs)

text \<open>
  C10. When the arbiter rejects the request of a \<open>lock()\<close> call, the first one or a
  retry of the contended wait, the call is rejected and \<open>lockedOrPending\<close> is left as
  it was. If it was true, it stays true through every run of events in which no
  \<open>unlock()\<close> is called, and every \<open>lock()\<close> after such a run only appends a waiter to
  \<open>localQueue\<close>: no request to the arbiter, no message, no resolution. And when the
  rejected call was the only suspended one, no \<open>lock()\<close> call resolves in such a run,
  so that no caller ever comes to call \<open>unlock()\<close>: the Mutex stays pending.
\<close>

theorem no_rollback_on_rejection:
  assumes "suspended m c = Some AwaitFirst \<or> (suspended m c = Some Contended \<and> 0 < retrying m c)"
  shows "\<exists>m'. step m (LockReplied c (Inl e)) = Some ([LockRejected c e], m')
           \<and> lockedOrPending m' = lockedOrPending m
           \<and> (lockedOrPending m \<longrightarrow>
                (\<forall>evs es m''. run m' evs = Some (es, m'') \<and> (\<forall>u. CallUnlock u \<notin> set evs)
                    \<longrightarrow> lockedOrPending m''
                        \<and> step m'' CallLock =
                            Some ([], m''\<lparr>localQueue := localQueue m'' @ [calls m''],
                                        calls := Suc (calls m'')\<rparr>)
                        \<and> ((\<forall>d. suspended m d \<noteq> None \<longrightarrow> d = c)
                              \<longrightarrow> (\<forall>d. LockResolved d \<notin> set es))))"
proof -
  from assms obtain m' where
    s: "step m (LockReplied c (Inl e)) = Some ([LockRejected c e], m')"
    by (auto simp add: lockReplied_def settle_def Let_def)
  have f: "lockedOrPending m' = lockedOrPending m"
    using step_frame [OF s] by simp
  have sus: "suspended m' = (suspended m)(c := None)"
    using assms s by (auto simp add: lockReplied_def settle_def Let_def)
  have "lockedOrPending m'' \<and> step m'' CallLock =
          Some ([], m''\<lparr>localQueue := localQueue m'' @ [calls m''], calls := Suc (calls m'')\<rparr>)
        \<and> ((\<forall>d. suspended m d \<noteq> None \<longrightarrow> d = c) \<longrightarrow> (\<forall>d. LockResolved d \<notin> set es))"
    if lp: "lockedOrPending m" and r: "run m' evs = Some (es, m'')"
      and nu: "\<forall>u. CallUnlock u \<notin> set evs"
    for evs es m''
  proof -
    have a: "lockedOrPending m''"
      using run_keeps_pending [OF r nu] f lp by simp
    have b: "\<forall>d. LockResolved d \<notin> set es" if only: "\<forall>d. suspended m d \<noteq> None \<longrightarrow> d = c"
    proof -
      have "\<forall>d. suspended m' d = None" using only by (auto simp add: sus)
      from run_wedged [OF r nu _ this] f lp show ?thesis by simp
    qed
    from a b show ?thesis by (simp add: lock_queued)
  qed
  with s f show ?thesis by blast
qed

theorem no_rollback_on_rejection_witness:
  "suspended queued_example 0 = Some AwaitFirst \<and> lockedOrPending queued_example
   \<and> suspended queued_example = [0 \<mapsto> AwaitFirst]
   \<and> step queued_example (LockReplied 0 (Inl TransportError)) =
        Some ([LockRejected 0 TransportError], failed_example)
   \<and> (\<exists>es m''. run failed_example [CallLock, Deliver waiting, CallLock] = Some (es, m'')
         \<and> lockedOrPending m'' \<and> (\<forall>d. LockResolved d \<notin> set es))
   \<and> suspended contended_example 0 = Some Contended \<and> 0 < retrying contended_example 0
   \<and> lockedOrPending contended_example
   \<and> step contended_example (LockReplied 0 (Inl TransportError)) =
        Some ([LockRejected 0 TransportError], failed_retry_example)
   \<and> (\<exists>es m''. run failed_retry_example [CallLock, Deliver unlocked] = Some (es, m'')
         \<and> lockedOrPending m'' \<and> (\<forall>d. LockResolved d \<notin> set es))"
proof -
  have h1: "suspended queued_example 0 = Some AwaitFirst"
    by (simp add: queued_example_suspended)
  have h2: "suspended contended_example 0 = Some Contended \<and> 0 < retrying contended_example 0"
    by (simp add: contended_example_fields)
  have nu: "\<forall>u. CallUnlock u \<notin> set [CallLock, Deliver waiting, CallLock]"
    "\<forall>u. CallUnlock u \<notin> set [CallLock, Deliver unlocked]"
    by simp_all
  from failed_example_run obtain mA mB where
    rA: "run failed_example [CallLock, Deliver waiting, CallLock] = Some ([], mA)" and
    rB: "run failed_retry_example [CallLock, Deliver unlocked] = Some ([], mB)"
    by blast
  from no_rollback_on_rejection [of queued_example 0 TransportError] h1
  obtain m1 where a: "step queued_example (LockReplied 0 (Inl TransportError)) =
              Some ([LockRejected 0 TransportError], m1)"
      "lockedOrPending queued_example \<longrightarrow>
        (\<forall>evs es m''. run m1 evs = Some (es, m'') \<and> (\<forall>u. CallUnlock u \<notin> set evs)
          \<longrightarrow> lockedOrPending m''
            \<and> step m'' CallLock =
                Some ([], m''\<lparr>localQueue := localQueue m'' @ [calls m''], calls := Suc (calls m'')\<rparr>)
            \<and> ((\<forall>d. suspended queued_example d \<noteq> None \<longrightarrow> d = 0)
                  \<longrightarrow> (\<forall>d. LockResolved d \<notin> set es)))"
    by blast
  from a(1) failed_example_step(1) have m1: "m1 = failed_example" by simp
  from a(2) [unfolded m1] queued_example_fields(1) rA nu(1) failed_example_only(1)
  have c1: "lockedOrPending mA \<and> (\<forall>d. LockResolved d \<notin> set [])"
    by blast
  from no_rollback_on_rejection [of contended_example 0 TransportError] h2
  obtain m2 where b: "step contended_example (LockReplied 0 (Inl TransportError)) =
              Some ([LockRejected 0 TransportError], m2)"
      "lockedOrPending contended_example \<longrightarrow>
        (\<forall>evs es m''. run m2 evs = Some (es, m'') \<and> (\<forall>u. CallUnlock u \<notin> set evs)
          \<longrightarrow> lockedOrPending m''
            \<and> step m'' CallLock =
                Some ([], m''\<lparr>localQueue := localQueue m'' @ [calls m''], calls := Suc (calls m'')\<rparr>)
            \<and> ((\<forall>d. suspended contended_example d \<noteq> None \<longrightarrow> d = 0)
                  \<longrightarrow> (\<forall>d. LockResolved d \<notin> set es)))"
    by blast
  from b(1) failed_example_step(2) have m2: "m2 = failed_retry_example" by simp
  from b(2) [unfolded m2] contended_example_fields(1) rB nu(2) failed_example_only(2)
  have c2: "lockedOrPending mB \<and> (\<forall>d. LockResolved d \<notin> set [])"
    by blast
  from h1 h2 c1 c2 rA rB failed_example_step failed_example_only(3) queued_example_fields(1)
    contended_example_fields(1)
  show ?thesis by blast
qed

lemma first_example_fields: "suspended first_example 0 = Some AwaitFirst"
  by (simp add: first_example_def Mutex_defs)

lemma contended_example_more:
  "Retry 0 \<in> set (timers contended_example)"
  "RetryOnUnlocked 0 \<in> set (listeners contended_example)"
  "suspended contended_example 0 \<noteq> Some AwaitFirst"
  "calls contended_example = 1" "now contended_example = 0"
  "due contended_example (Retry 0) = 500"
  by (simp_all add: contended_example_def Mutex_defs)

lemma tick_due_example_eq: "tick_due_example = contended_example\<lparr>now := 500\<rparr>"
  by (simp add: tick_due_example_def contended_example_more)

lemma tick_due_example_fields:
  "Retry 0 \<in> set (timers tick_due_example)" "due tick_due_example (Retry 0) = 500"
  "now tick_due_example = 500" "suspended tick_due_example 0 = Some Contended"
  "calls tick_due_example = 1"
  by (simp_all add: tick_due_example_eq contended_example_more contended_example_fields)

lemma handle_unlocked_keeps_retry:
  "RetryOnUnlocked c \<in> set (listeners m) \<Longrightarrow>
     RetryOnUnlocked c \<in> set (listeners (snd (handle unlocked l m)))"
  by (cases l) (simp_all add: tryLock_def finish_def)

lemma notify_unlocked_retries:
  "RetryOnUnlocked c \<in> set ls \<Longrightarrow> RetryOnUnlocked c \<in> set (listeners m) \<Longrightarrow>
     ArbLock c \<in> set (fst (notify unlocked ls m))"
proof (induction ls arbitrary: m)
  case Nil
  then show ?case by simp
next
  case (Cons l ls)
  show ?case
  proof (cases "l = RetryOnUnlocked c")
    case True
    with Cons.prems show ?thesis by (simp add: split_beta tryLock_def)
  next
    case False
    with Cons.prems have in_ls: "RetryOnUnlocked c \<in> set ls" by simp
    show ?thesis
    proof (cases "l \<in> set (listeners m)")
      case True
      have "RetryOnUnlocked c \<in> set (listeners (snd (handle unlocked l m)))"
        using Cons.prems(2) by (rule handle_unlocked_keeps_retry)
      from Cons.IH [OF in_ls this] True show ?thesis by (simp add: split_beta)
    next
      case False
      with Cons.IH [OF in_ls Cons.prems(2)] show ?thesis by simp
    qed
  qed
qed

lemma handle_lock_source:
  "ArbLock c \<in> set (fst (handle msg l m)) \<Longrightarrow> msg = unlocked \<and> l = RetryOnUnlocked c"
  by (cases msg; cases l)
     (auto simp add: onWaiting_def yieldLock_def tryLock_def Let_def split: option.splits if_splits)

lemma handle_retry_listeners:
  "RetryOnUnlocked c \<in> set (listeners (snd (handle msg l m))) \<longleftrightarrow>
     RetryOnUnlocked c \<in> set (listeners m)"
  by (cases msg; cases l)
     (auto simp add: onWaiting_def yieldLock_def tryLock_def finish_def Let_def
        split: option.splits if_splits)

lemma notify_lock_source:
  "ArbLock c \<in> set (fst (notify msg ls m)) \<Longrightarrow>
     msg = unlocked \<and> RetryOnUnlocked c \<in> set (listeners m)"
proof (induction ls arbitrary: m)
  case Nil
  then show ?case by simp
next
  case (Cons l ls)
  show ?case
  proof (cases "l \<in> set (listeners m)")
    case True
    with Cons.prems have "ArbLock c \<in> set (fst (handle msg l m))
        \<or> ArbLock c \<in> set (fst (notify msg ls (snd (handle msg l m))))"
      by (auto simp add: split_beta)
    then show ?thesis
    proof
      assume "ArbLock c \<in> set (fst (handle msg l m))"
      from handle_lock_source [OF this] True show ?thesis by simp
    next
      assume "ArbLock c \<in> set (fst (notify msg ls (snd (handle msg l m))))"
      from Cons.IH [OF this] show ?thesis by (simp add: handle_retry_listeners)
    qed
  next
    case False
    with Cons.prems Cons.IH show ?thesis by simp
  qed
qed

lemma resume_effects: "fst (resume cs m) = map ArbLock cs"
  by (induction cs arbitrary: m) (simp_all add: split_beta acquire_def)

lemma woken_awaits:
  "c \<in> set (woken m) \<Longrightarrow>
     \<exists>p. suspended m c = Some (AwaitYield p) \<and> YieldSettle p \<notin> set (listeners m)"
  by (auto simp add: woken_def split: option.splits phase.splits)

lemma wake_lock_source:
  "ArbLock c \<in> set (fst (wake m)) \<Longrightarrow>
     \<exists>p. suspended m c = Some (AwaitYield p) \<and> YieldSettle p \<notin> set (listeners m)"
  by (auto simp add: wake_def resume_effects woken_awaits)

lemma attempt_source:
  assumes "step m ev = Some (es, m')" and "ArbLock c \<in> set es" and "c < calls m"
    and "suspended m c = Some Contended \<or> suspended m c = None"
  shows "(ev = IntervalFires c \<and> Retry c \<in> set (timers m) \<and> due m (Retry c) \<le> now m)
     \<or> (ev = Deliver unlocked \<and> RetryOnUnlocked c \<in> set (listeners m))"
proof (cases ev)
  case CallLock
  with assms show ?thesis
    by (auto simp add: lock_def acquire_def Let_def split: if_splits option.splits)
next
  case (CallUnlock u)
  with assms show ?thesis
    by (auto simp add: unlock_def yieldLock_def Let_def split: if_splits list.splits)
next
  case (Deliver msg)
  let ?m1 = "snd (notify msg (listeners m) m)"
  from assms(1,2) Deliver have "ArbLock c \<in> set (fst (notify msg (listeners m) m))
      \<or> ArbLock c \<in> set (fst (wake ?m1))"
    by (auto simp add: split_beta Let_def)
  then show ?thesis
  proof
    assume "ArbLock c \<in> set (fst (notify msg (listeners m) m))"
    from notify_lock_source [OF this] Deliver show ?thesis by simp
  next
    assume "ArbLock c \<in> set (fst (wake ?m1))"
    from wake_lock_source [OF this] assms(4) show ?thesis by (auto simp add: notify_suspended)
  qed
next
  case (Elapse d)
  with assms show ?thesis by auto
next
  case (IntervalFires d)
  with assms show ?thesis by (auto simp add: tryLock_def split: if_splits)
next
  case (TimeoutFires p)
  with assms have "ArbLock c \<in> set (fst (wake (finish p m)))" by (auto split: if_splits)
  from wake_lock_source [OF this] assms(4) show ?thesis by (auto simp add: finish_def)
next
  case (LockReplied d r)
  with assms show ?thesis
    by (auto simp add: lockReplied_def contend_def tryLock_def settle_def Let_def
        split: if_splits sum.splits bool.splits option.splits)
next
  case (UnlockReplied p r)
  with assms show ?thesis
    by (auto simp add: unlockReplied_def split: option.splits)
qed

text \<open>
  C8, as the code has it. When the first request is answered false, the call
  subscribes the listener for \<^verbatim>\<open>'unlocked'\<close>, starts the interval timer, first due
  500 milliseconds later, and makes one attempt at once (line 91), in the step of that
  answer. The timer ticks when it is set and due, not before and not once it is
  cleared; a tick makes one attempt and sets the timer for 500 milliseconds later. A
  delivered \<^verbatim>\<open>'unlocked'\<close> makes an attempt. These are the only attempts: a step that
  sends a request for a call in the wait, or past it, is a tick of that call's timer or
  the delivery of \<^verbatim>\<open>'unlocked'\<close> to that call's listener. An attempt answered false
  publishes \<^verbatim>\<open>'waiting'\<close> and changes nothing else. An attempt answered true, or
  rejected, settles the waiting call, and the timer and the listener are gone in the
  state after that step.
\<close>

theorem contended_wait:
  "(suspended m c = Some AwaitFirst \<longrightarrow>
      step m (LockReplied c (Inr False)) =
        Some ([ArbLock c],
              m\<lparr>listeners := listeners m @ [RetryOnUnlocked c],
                timers := timers m @ [Retry c],
                due := (due m)(Retry c := now m + 500),
                suspended := (suspended m)(c := Some Contended),
                retrying := (retrying m)(c := Suc (retrying m c))\<rparr>))
   \<and> (Retry c \<in> set (timers m) \<and> due m (Retry c) \<le> now m \<longrightarrow>
      step m (IntervalFires c) =
        Some ([ArbLock c],
              m\<lparr>due := (due m)(Retry c := now m + 500),
                retrying := (retrying m)(c := Suc (retrying m c))\<rparr>))
   \<and> (now m < due m (Retry c) \<longrightarrow> step m (IntervalFires c) = None)
   \<and> (Retry c \<notin> set (timers m) \<longrightarrow> step m (IntervalFires c) = None)
   \<and> (RetryOnUnlocked c \<in> set (listeners m) \<longrightarrow>
      (\<exists>es m'. step m (Deliver unlocked) = Some (es, m') \<and> ArbLock c \<in> set es))
   \<and> (step m ev = Some (es, m') \<and> ArbLock c \<in> set es \<and> c < calls m
        \<and> (suspended m c = Some Contended \<or> suspended m c = None) \<longrightarrow>
      (ev = IntervalFires c \<and> Retry c \<in> set (timers m) \<and> due m (Retry c) \<le> now m)
      \<or> (ev = Deliver unlocked \<and> RetryOnUnlocked c \<in> set (listeners m)))
   \<and> (suspended m c \<noteq> Some AwaitFirst \<and> 0 < retrying m c \<longrightarrow>
      step m (LockReplied c (Inr False)) =
        Some ([Publish waiting], m\<lparr>retrying := (retrying m)(c := retrying m c - 1)\<rparr>))
   \<and> (suspended m c = Some Contended \<and> 0 < retrying m c \<longrightarrow>
      (\<exists>m'. step m (LockReplied c (Inr True)) = Some ([LockResolved c], m')
         \<and> Retry c \<notin> set (timers m') \<and> RetryOnUnlocked c \<notin> set (listeners m')
         \<and> suspended m' c = None)
      \<and> (\<exists>m'. step m (LockReplied c (Inl e)) = Some ([LockRejected c e], m')
         \<and> Retry c \<notin> set (timers m') \<and> RetryOnUnlocked c \<notin> set (listeners m')
         \<and> suspended m' c = None))"
proof (intro conjI impI)
  assume "suspended m c = Some AwaitFirst"
  then show "step m (LockReplied c (Inr False)) =
        Some ([ArbLock c],
              m\<lparr>listeners := listeners m @ [RetryOnUnlocked c],
                timers := timers m @ [Retry c],
                due := (due m)(Retry c := now m + 500),
                suspended := (suspended m)(c := Some Contended),
                retrying := (retrying m)(c := Suc (retrying m c))\<rparr>)"
    by (simp add: lockReplied_def contend_def tryLock_def)
next
  assume "Retry c \<in> set (timers m) \<and> due m (Retry c) \<le> now m"
  then show "step m (IntervalFires c) =
        Some ([ArbLock c],
              m\<lparr>due := (due m)(Retry c := now m + 500),
                retrying := (retrying m)(c := Suc (retrying m c))\<rparr>)"
    by (simp add: tryLock_def)
next
  assume "now m < due m (Retry c)"
  then show "step m (IntervalFires c) = None" by simp
next
  assume "Retry c \<notin> set (timers m)"
  then show "step m (IntervalFires c) = None" by simp
next
  assume "RetryOnUnlocked c \<in> set (listeners m)"
  then have "ArbLock c \<in> set (fst (notify unlocked (listeners m) m))"
    by (simp add: notify_unlocked_retries)
  then show "\<exists>es m'. step m (Deliver unlocked) = Some (es, m') \<and> ArbLock c \<in> set es"
    by (simp add: split_beta Let_def)
next
  assume "step m ev = Some (es, m') \<and> ArbLock c \<in> set es \<and> c < calls m
        \<and> (suspended m c = Some Contended \<or> suspended m c = None)"
  then show "(ev = IntervalFires c \<and> Retry c \<in> set (timers m) \<and> due m (Retry c) \<le> now m)
      \<or> (ev = Deliver unlocked \<and> RetryOnUnlocked c \<in> set (listeners m))"
    using attempt_source [of m ev es m' c] by blast
next
  assume "suspended m c \<noteq> Some AwaitFirst \<and> 0 < retrying m c"
  then show "step m (LockReplied c (Inr False)) =
        Some ([Publish waiting], m\<lparr>retrying := (retrying m)(c := retrying m c - 1)\<rparr>)"
    by (simp add: lockReplied_def Let_def)
next
  assume "suspended m c = Some Contended \<and> 0 < retrying m c"
  then show "\<exists>m'. step m (LockReplied c (Inr True)) = Some ([LockResolved c], m')
         \<and> Retry c \<notin> set (timers m') \<and> RetryOnUnlocked c \<notin> set (listeners m')
         \<and> suspended m' c = None"
    by (simp add: lockReplied_def settle_def Let_def)
next
  assume "suspended m c = Some Contended \<and> 0 < retrying m c"
  then show "\<exists>m'. step m (LockReplied c (Inl e)) = Some ([LockRejected c e], m')
         \<and> Retry c \<notin> set (timers m') \<and> RetryOnUnlocked c \<notin> set (listeners m')
         \<and> suspended m' c = None"
    by (simp add: lockReplied_def settle_def Let_def)
qed

theorem contended_wait_witness:
  "suspended first_example 0 = Some AwaitFirst
   \<and> map_option fst (step first_example (LockReplied 0 (Inr False))) = Some [ArbLock 0]
   \<and> Retry 0 \<in> set (timers tick_due_example)
   \<and> due tick_due_example (Retry 0) = 500 \<and> now tick_due_example = 500
   \<and> step tick_due_example (IntervalFires 0) =
       Some ([ArbLock 0],
             tick_due_example\<lparr>due := (due tick_due_example)(Retry 0 := now tick_due_example + 500),
               retrying := (retrying tick_due_example)(0 := Suc (retrying tick_due_example 0))\<rparr>)
   \<and> 0 < calls tick_due_example \<and> suspended tick_due_example 0 = Some Contended
   \<and> now contended_example = 0 \<and> due contended_example (Retry 0) = 500
   \<and> step contended_example (IntervalFires 0) = None
   \<and> timers first_example = [] \<and> step first_example (IntervalFires 0) = None
   \<and> RetryOnUnlocked 0 \<in> set (listeners contended_example)
   \<and> (\<exists>es m'. step contended_example (Deliver unlocked) = Some (es, m') \<and> ArbLock 0 \<in> set es)
   \<and> suspended contended_example 0 = Some Contended \<and> retrying contended_example 0 = 1
   \<and> map_option fst (step contended_example (LockReplied 0 (Inr False))) = Some [Publish waiting]
   \<and> (\<exists>m'. step contended_example (LockReplied 0 (Inr True)) = Some ([LockResolved 0], m')
         \<and> Retry 0 \<notin> set (timers m') \<and> RetryOnUnlocked 0 \<notin> set (listeners m')
         \<and> suspended m' 0 = None)
   \<and> (\<exists>m'. step contended_example (LockReplied 0 (Inl TransportError)) =
              Some ([LockRejected 0 TransportError], m')
         \<and> Retry 0 \<notin> set (timers m') \<and> RetryOnUnlocked 0 \<notin> set (listeners m')
         \<and> suspended m' 0 = None)"
proof -
  have t: "timers first_example = []" by (simp add: first_example_def Mutex_defs)
  note a = contended_wait [where m = first_example and c = 0 and e = TransportError
      and ev = CallLock and es = "[]" and m' = first_example]
  note b = contended_wait [where m = contended_example and c = 0 and e = TransportError
      and ev = CallLock and es = "[]" and m' = contended_example]
  note d = contended_wait [where m = tick_due_example and c = 0 and e = TransportError
      and ev = "IntervalFires 0" and es = "[ArbLock 0]"
      and m' = "tick_due_example\<lparr>due := (due tick_due_example)(Retry 0 := now tick_due_example + 500),
               retrying := (retrying tick_due_example)(0 := Suc (retrying tick_due_example 0))\<rparr>"]
  from a have a1: "map_option fst (step first_example (LockReplied 0 (Inr False))) = Some [ArbLock 0]"
    and a2: "step first_example (IntervalFires 0) = None"
    by (simp_all add: first_example_fields t)
  from d have d1: "step tick_due_example (IntervalFires 0) =
       Some ([ArbLock 0],
             tick_due_example\<lparr>due := (due tick_due_example)(Retry 0 := now tick_due_example + 500),
               retrying := (retrying tick_due_example)(0 := Suc (retrying tick_due_example 0))\<rparr>)"
    by (simp add: tick_due_example_fields del: step.simps)
  from b have b1: "step contended_example (IntervalFires 0) = None"
    and b2: "\<exists>es m'. step contended_example (Deliver unlocked) = Some (es, m') \<and> ArbLock 0 \<in> set es"
    and b3: "map_option fst (step contended_example (LockReplied 0 (Inr False))) = Some [Publish waiting]"
    and b4: "\<exists>m'. step contended_example (LockReplied 0 (Inr True)) = Some ([LockResolved 0], m')
         \<and> Retry 0 \<notin> set (timers m') \<and> RetryOnUnlocked 0 \<notin> set (listeners m')
         \<and> suspended m' 0 = None"
    and b5: "\<exists>m'. step contended_example (LockReplied 0 (Inl TransportError)) =
              Some ([LockRejected 0 TransportError], m')
         \<and> Retry 0 \<notin> set (timers m') \<and> RetryOnUnlocked 0 \<notin> set (listeners m')
         \<and> suspended m' 0 = None"
    by (simp_all add: contended_example_fields contended_example_more)
  show ?thesis
    using a1 a2 d1 b1 b2 b3 b4 b5
    by (simp add: first_example_fields t tick_due_example_fields contended_example_fields
        contended_example_more)
qed

text \<open>
  Against C8 in the spec's wording, where every attempt follows a tick or an
  \<^verbatim>\<open>'unlocked'\<close> message: the answer false to the first request is neither, and its
  step sends a \<open>tryLock\<close> request, at a clock where the timer is not due.
\<close>

theorem contended_wait_counterexample:
  "suspended first_example 0 = Some AwaitFirst
   \<and> fst (the (step first_example (LockReplied 0 (Inr False)))) = [ArbLock 0]
   \<and> retrying (snd (the (step first_example (LockReplied 0 (Inr False))))) 0 = 1
   \<and> now (snd (the (step first_example (LockReplied 0 (Inr False))))) = 0
   \<and> due (snd (the (step first_example (LockReplied 0 (Inr False))))) (Retry 0) = 500"
  by (simp add: first_example_def Mutex_defs)

lemma resume_suspended:
  "c \<in> set cs \<Longrightarrow> suspended (snd (resume cs m)) c = Some AwaitFirst"
  "suspended m c = Some AwaitFirst \<Longrightarrow> suspended (snd (resume cs m)) c = Some AwaitFirst"
  by (induction cs arbitrary: m) (auto simp add: split_beta acquire_def)

lemma resume_keeps:
  "yieldPromise (snd (resume cs m)) = yieldPromise m"
  "timers (snd (resume cs m)) = timers m"
  "releasing (snd (resume cs m)) = releasing m"
  "calls (snd (resume cs m)) = calls m"
  "due (snd (resume cs m)) = due m"
  "now (snd (resume cs m)) = now m"
  "set (listeners (snd (resume cs m))) = set (listeners m) \<union> PeerWatch ` set cs"
  by (induction cs arbitrary: m) (auto simp add: split_beta acquire_def)

lemma publish_unlocked_only_after_release:
  assumes "step m ev = Some (es, m')" and "Publish unlocked \<in> set es"
  shows "\<exists>p. ev = UnlockReplied p None \<and> releasing m p \<noteq> None"
proof (cases ev)
  case CallLock
  with assms show ?thesis
    by (auto simp add: lock_def acquire_def Let_def split: if_splits option.splits)
next
  case (CallUnlock u)
  with assms show ?thesis
    by (auto simp add: unlock_def yieldLock_def Let_def split: if_splits list.splits)
next
  case (Deliver msg)
  with assms have "Publish unlocked \<in> set (fst (notify msg (listeners m) m))
      \<or> Publish unlocked \<in> set (fst (wake (snd (notify msg (listeners m) m))))"
    by (auto simp add: split_beta Let_def)
  then show ?thesis
    using notify_effects [of "Publish unlocked" msg "listeners m" m]
    by (auto simp add: wake_def resume_effects)
next
  case (Elapse d)
  with assms show ?thesis by auto
next
  case (IntervalFires c)
  with assms show ?thesis by (auto simp add: tryLock_def split: if_splits)
next
  case (TimeoutFires p)
  with assms have "es = fst (wake (finish p m))" by (auto split: if_splits)
  with assms(2) show ?thesis by (auto simp add: wake_def resume_effects)
next
  case (LockReplied c r)
  with assms show ?thesis
    by (auto simp add: lockReplied_def contend_def tryLock_def settle_def Let_def
        split: if_splits sum.splits bool.splits option.splits)
next
  case (UnlockReplied p r)
  with assms show ?thesis
    by (auto simp add: unlockReplied_def split: option.splits)
qed

lemma notify_waiting_idle:
  "waitingListener m = None \<Longrightarrow> snd (notify waiting ls m) = m"
proof (induction ls)
  case Nil
  then show ?case by simp
next
  case (Cons l ls)
  then show ?case by (cases l) (simp_all add: split_beta onWaiting_def)
qed

lemma notify_waiting_yields:
  "\<not> lockedOrPending m \<Longrightarrow> waitingListener m = Some h \<Longrightarrow>
   PeerWatch x \<in> set ls \<Longrightarrow> PeerWatch x \<in> set (listeners m) \<Longrightarrow>
     ArbUnlock (yields m) \<in> set (fst (notify waiting ls m))
     \<and> snd (notify waiting ls m) =
         snd (yieldLock None (m\<lparr>listeners := removeAll (PeerWatch h) (listeners m),
                                 waitingListener := None\<rparr>))"
proof (induction ls)
  case Nil
  then show ?case by simp
next
  case (Cons l ls)
  let ?m1 = "m\<lparr>listeners := removeAll (PeerWatch h) (listeners m), waitingListener := None\<rparr>"
  show ?case
  proof (cases "\<exists>y. l = PeerWatch y \<and> l \<in> set (listeners m)")
    case True
    then obtain y where l: "l = PeerWatch y" "l \<in> set (listeners m)" by blast
    have h1: "handle waiting l m = yieldLock None ?m1"
      using Cons.prems(1,2) l by (simp add: onWaiting_def Let_def)
    have "waitingListener (snd (yieldLock None ?m1)) = None"
      by (simp add: yieldLock_def Let_def)
    from notify_waiting_idle [OF this, of ls]
    show ?thesis using l h1 by (simp add: split_beta yieldLock_def Let_def)
  next
    case False
    then have x: "PeerWatch x \<in> set ls" using Cons.prems(3,4) by auto
    have skip: "notify waiting (l # ls) m = notify waiting ls m"
      using False by (cases l) (auto simp add: split_beta)
    from Cons.IH [OF Cons.prems(1,2) x Cons.prems(4)] skip show ?thesis by simp
  qed
qed

lemma notify_unlocked_shrinks:
  "set (listeners (snd (notify unlocked ls m))) \<subseteq> set (listeners m)
   \<and> set (timers (snd (notify unlocked ls m))) \<subseteq> set (timers m)
   \<and> (yieldPromise m = None \<longrightarrow> yieldPromise (snd (notify unlocked ls m)) = None)"
proof (induction ls arbitrary: m)
  case Nil
  then show ?case by simp
next
  case (Cons l ls)
  have h: "set (listeners (snd (handle unlocked l m))) \<subseteq> set (listeners m)
     \<and> set (timers (snd (handle unlocked l m))) \<subseteq> set (timers m)
     \<and> (yieldPromise m = None \<longrightarrow> yieldPromise (snd (handle unlocked l m)) = None)"
    by (cases l) (auto simp add: tryLock_def finish_def)
  show ?case
    using Cons.IH [of m] Cons.IH [of "snd (handle unlocked l m)"] h
    by (auto simp add: split_beta)
qed

lemma notify_unlocked_settles:
  "YieldSettle p \<in> set ls \<Longrightarrow> YieldSettle p \<in> set (listeners m) \<Longrightarrow>
     YieldSettle p \<notin> set (listeners (snd (notify unlocked ls m)))
     \<and> YieldTimeout p \<notin> set (timers (snd (notify unlocked ls m)))
     \<and> yieldPromise (snd (notify unlocked ls m)) = None"
proof (induction ls arbitrary: m)
  case Nil
  then show ?case by simp
next
  case (Cons l ls)
  show ?case
  proof (cases "l = YieldSettle p")
    case True
    let ?m1 = "finish p m"
    have "YieldSettle p \<notin> set (listeners ?m1)" "YieldTimeout p \<notin> set (timers ?m1)"
      "yieldPromise ?m1 = None"
      by (simp_all add: finish_def)
    with notify_unlocked_shrinks [of ls ?m1] True Cons.prems(2)
    show ?thesis by (auto simp add: split_beta)
  next
    case False
    with Cons.prems have in_ls: "YieldSettle p \<in> set ls" by simp
    show ?thesis
    proof (cases "l \<in> set (listeners m)")
      case True
      have "YieldSettle p \<in> set (listeners (snd (handle unlocked l m)))"
        using Cons.prems(2) False by (cases l) (auto simp add: tryLock_def finish_def)
      from Cons.IH [OF in_ls this] True show ?thesis by (simp add: split_beta)
    next
      case False
      with Cons.IH [OF in_ls Cons.prems(2)] show ?thesis by simp
    qed
  qed
qed

lemma notify_unlocked_suspended:
  "suspended (snd (notify unlocked ls m)) = suspended m
   \<and> calls (snd (notify unlocked ls m)) = calls m"
proof (induction ls arbitrary: m)
  case Nil
  then show ?case by simp
next
  case (Cons l ls)
  have "suspended (snd (handle unlocked l m)) = suspended m
      \<and> calls (snd (handle unlocked l m)) = calls m"
    by (cases l) (auto simp add: tryLock_def finish_def)
  then show ?case
    using Cons.IH [of m] Cons.IH [of "snd (handle unlocked l m)"]
    by (auto simp add: split_beta)
qed

lemma woken_mem:
  "suspended m c = Some (AwaitYield p) \<Longrightarrow> c < calls m \<Longrightarrow>
     YieldSettle p \<notin> set (listeners m) \<Longrightarrow> c \<in> set (woken m)"
  by (simp add: woken_def)

lemma wake_after_settle:
  assumes "YieldSettle p \<notin> set (listeners m)" and "YieldTimeout p \<notin> set (timers m)"
    and "yieldPromise m = None"
  shows "yieldPromise (snd (wake m)) = None \<and> YieldTimeout p \<notin> set (timers (snd (wake m)))
     \<and> YieldSettle p \<notin> set (listeners (snd (wake m)))
     \<and> (\<forall>c. suspended m c = Some (AwaitYield p) \<and> c < calls m \<longrightarrow>
          ArbLock c \<in> set (fst (wake m)) \<and> suspended (snd (wake m)) c = Some AwaitFirst)"
  using assms
  by (auto simp add: wake_def resume_keeps resume_effects resume_suspended woken_mem)

lemma settle_by_timeout:
  assumes "YieldTimeout p \<in> set (timers m)" and "due m (YieldTimeout p) \<le> now m"
  shows "\<exists>es m'. step m (TimeoutFires p) = Some (es, m')
     \<and> yieldPromise m' = None \<and> YieldTimeout p \<notin> set (timers m')
     \<and> YieldSettle p \<notin> set (listeners m')
     \<and> (\<forall>c. suspended m c = Some (AwaitYield p) \<and> c < calls m \<longrightarrow>
          ArbLock c \<in> set es \<and> suspended m' c = Some AwaitFirst)"
proof -
  have "YieldSettle p \<notin> set (listeners (finish p m))" "YieldTimeout p \<notin> set (timers (finish p m))"
    "yieldPromise (finish p m) = None"
    by (simp_all add: finish_def)
  from wake_after_settle [OF this] assms show ?thesis
    by (cases "wake (finish p m)") (simp add: finish_def)
qed

lemma settle_by_message:
  assumes "YieldSettle p \<in> set (listeners m)"
  shows "\<exists>es m'. step m (Deliver unlocked) = Some (es, m')
     \<and> yieldPromise m' = None \<and> YieldTimeout p \<notin> set (timers m')
     \<and> YieldSettle p \<notin> set (listeners m')
     \<and> (\<forall>c. suspended m c = Some (AwaitYield p) \<and> c < calls m \<longrightarrow>
          ArbLock c \<in> set es \<and> suspended m' c = Some AwaitFirst)"
proof -
  let ?m1 = "snd (notify unlocked (listeners m) m)"
  from notify_unlocked_settles [OF assms assms]
  have "YieldSettle p \<notin> set (listeners ?m1)" "YieldTimeout p \<notin> set (timers ?m1)"
    "yieldPromise ?m1 = None"
    by simp_all
  from wake_after_settle [OF this] notify_unlocked_suspended [of "listeners m" m]
  show ?thesis
    by (cases "wake ?m1") (auto simp add: split_beta Let_def)
qed



lemma yield_begins_in_unlock:
  assumes "lockedOrPending m" and "localQueue m = []" and "waitingListener m = None"
  shows "\<exists>m'. step m (CallUnlock u) = Some ([ArbUnlock (yields m)], m')
     \<and> yieldPromise m' = Some (yields m) \<and> YieldTimeout (yields m) \<in> set (timers m')
     \<and> due m' (YieldTimeout (yields m)) = now m + 500
     \<and> YieldSettle (yields m) \<in> set (listeners m')
     \<and> releasing m' (yields m) = Some (Some u) \<and> \<not> lockedOrPending m'"
  using assms by (simp add: unlock_def yieldLock_def Let_def)

lemma yield_begins_in_listener:
  assumes "\<not> lockedOrPending m" and "waitingListener m = Some h"
    and "PeerWatch x \<in> set (listeners m)"
  shows "\<exists>es m'. step m (Deliver waiting) = Some (es, m') \<and> ArbUnlock (yields m) \<in> set es
     \<and> yieldPromise m' = Some (yields m) \<and> YieldTimeout (yields m) \<in> set (timers m')
     \<and> due m' (YieldTimeout (yields m)) = now m + 500
     \<and> YieldSettle (yields m) \<in> set (listeners m')
     \<and> releasing m' (yields m) = Some None"
proof -
  let ?m0 = "m\<lparr>listeners := removeAll (PeerWatch h) (listeners m), waitingListener := None\<rparr>"
  let ?m1 = "snd (notify waiting (listeners m) m)"
  from notify_waiting_yields [OF assms(1,2) assms(3) assms(3)]
  have a: "ArbUnlock (yields m) \<in> set (fst (notify waiting (listeners m) m))"
    and b: "?m1 = snd (yieldLock None ?m0)"
    by simp_all
  have c: "yieldPromise ?m1 = Some (yields m)" "YieldTimeout (yields m) \<in> set (timers ?m1)"
    "due ?m1 (YieldTimeout (yields m)) = now m + 500"
    "YieldSettle (yields m) \<in> set (listeners ?m1)" "releasing ?m1 (yields m) = Some None"
    unfolding b by (simp_all add: yieldLock_def Let_def)
  have "step m (Deliver waiting) =
      Some (fst (notify waiting (listeners m) m) @ fst (wake ?m1), snd (wake ?m1))"
    by (simp add: split_beta Let_def)
  moreover have "yieldPromise (snd (wake ?m1)) = Some (yields m)"
    "YieldTimeout (yields m) \<in> set (timers (snd (wake ?m1)))"
    "due (snd (wake ?m1)) (YieldTimeout (yields m)) = now m + 500"
    "YieldSettle (yields m) \<in> set (listeners (snd (wake ?m1)))"
    "releasing (snd (wake ?m1)) (yields m) = Some None"
    using c by (simp_all add: wake_def resume_keeps)
  ultimately show ?thesis using a by auto
qed

lemma release_replied:
  assumes "releasing m p = Some w"
  shows "step m (UnlockReplied p None) =
     Some (Publish unlocked # (case w of Some t \<Rightarrow> [UnlockResolved t] | None \<Rightarrow> []),
           m\<lparr>releasing := (releasing m)(p := None)\<rparr>)"
  using assms by (simp add: unlockReplied_def)

lemmas k_defs = k_bound_def k_promise_def k_await_def k_woken_def k_retry_def

lemma coherent_init: "coherent Mutex_init"
  by (simp add: coherent_def k_defs Mutex_init_def)

lemma coherent_settling: "coherent m \<Longrightarrow> settling m"
  by (auto simp add: coherent_def settling_def k_defs)

lemma onWaiting_coherent: "coherent m \<Longrightarrow> coherent (snd (onWaiting m))"
  unfolding coherent_def k_defs
  by (auto simp add: onWaiting_def yieldLock_def Let_def split: option.splits)

lemma notify_waiting_coherent: "coherent m \<Longrightarrow> coherent (snd (notify waiting ls m))"
proof (induction ls arbitrary: m)
  case Nil
  then show ?case by simp
next
  case (Cons l ls)
  have "coherent (snd (handle waiting l m))"
    using Cons.prems by (cases l) (simp_all add: onWaiting_coherent)
  then show ?case
    using Cons.IH [of m] Cons.IH [of "snd (handle waiting l m)"] Cons.prems
    by (simp add: split_beta)
qed

lemma handle_unlocked_settling: "settling m \<Longrightarrow> settling (snd (handle unlocked l m))"
  unfolding settling_def k_defs
  by (cases l) (auto simp add: tryLock_def finish_def)

lemma notify_unlocked_settling: "settling m \<Longrightarrow> settling (snd (notify unlocked ls m))"
proof (induction ls arbitrary: m)
  case Nil
  then show ?case by simp
next
  case (Cons l ls)
  then show ?case
    using Cons.IH [of m] Cons.IH [of "snd (handle unlocked l m)"] handle_unlocked_settling [of m l]
    by (simp add: split_beta)
qed

lemma resume_other:
  "c \<notin> set cs \<Longrightarrow> suspended (snd (resume cs m)) c = suspended m c"
  by (induction cs arbitrary: m) (auto simp add: split_beta acquire_def)

lemma resume_peer:
  "waitingListener (snd (resume cs m)) = (if cs = [] then waitingListener m else Some (last cs))"
  by (induction cs arbitrary: m) (auto simp add: split_beta acquire_def)

lemma woken_bound: "c \<in> set (woken m) \<Longrightarrow> c < calls m"
  by (simp add: woken_def)

lemma wake_coherent:
  assumes "settling m"
  shows "coherent (snd (wake m))"
proof -
  let ?m' = "snd (resume (woken m) m)"
  have b: "k_bound m" and pr: "k_promise m" and w: "k_woken m" and r: "k_retry m"
    using assms by (simp_all add: settling_def)
  have s: "suspended ?m' c = (if c \<in> set (woken m) then Some AwaitFirst else suspended m c)" for c
    by (simp add: resume_suspended(1) resume_other)
  have l: "set (listeners ?m') = set (listeners m) \<union> PeerWatch ` set (woken m)"
    by (rule resume_keeps)
  have "k_bound ?m'"
    using b by (auto simp add: k_bound_def s resume_keeps woken_bound)
  moreover have "k_promise ?m'"
  proof (cases "woken m = []")
    case True
    with pr show ?thesis by (simp add: k_promise_def)
  next
    case False
    then obtain c where "c \<in> set (woken m)" by (cases "woken m") auto
    from woken_awaits [OF this] w have "yieldPromise m = None" by (auto simp add: k_woken_def)
    then show ?thesis by (simp add: k_promise_def resume_keeps)
  qed
  moreover have "k_await ?m'"
    unfolding k_await_def
  proof (intro allI impI)
    fix c p
    assume a: "suspended ?m' c = Some (AwaitYield p)"
    then have n: "c \<notin> set (woken m)" and sm: "suspended m c = Some (AwaitYield p)"
      by (auto simp add: s split: if_splits)
    from sm b have "c < calls m" by (simp add: k_bound_def)
    with n sm have "YieldSettle p \<in> set (listeners m)" using woken_mem [of m c p] by blast
    then show "YieldSettle p \<in> set (listeners ?m')" by (simp add: l)
  qed
  moreover have "k_retry ?m'"
    unfolding k_retry_def
  proof (intro allI impI)
    fix c
    assume "RetryOnUnlocked c \<in> set (listeners ?m') \<or> Retry c \<in> set (timers ?m')"
    then have "RetryOnUnlocked c \<in> set (listeners m) \<or> Retry c \<in> set (timers m)"
      by (auto simp add: l resume_keeps)
    with r have sm: "suspended m c = Some Contended" unfolding k_retry_def by blast
    then have "c \<notin> set (woken m)" using woken_awaits [of c m] by auto
    with sm show "suspended ?m' c = Some Contended" by (simp add: s)
  qed
  ultimately show ?thesis by (simp add: coherent_def wake_def)
qed

lemma step_coherent:
  assumes "coherent m" and "step m ev = Some (es, m')"
  shows "coherent m'"
proof (cases ev)
  case CallLock
  with assms(2) have m': "m' = snd (lock m)" by simp
  have n: "suspended m (calls m) = None"
    using assms(1) unfolding coherent_def k_bound_def by (cases "suspended m (calls m)") auto
  then have f: "RetryOnUnlocked (calls m) \<notin> set (listeners m)" "Retry (calls m) \<notin> set (timers m)"
    using assms(1) unfolding coherent_def k_retry_def by auto
  have "k_bound m'"
    using assms(1) unfolding m' coherent_def k_bound_def
    by (auto simp add: lock_def acquire_def Let_def less_Suc_eq split: if_splits option.splits)
  moreover have "k_promise m'"
    using assms(1) unfolding m' coherent_def k_promise_def
    by (auto simp add: lock_def acquire_def Let_def split: if_splits option.splits)
  moreover have "k_await m'"
    using assms(1) n unfolding m' coherent_def k_await_def k_promise_def
    by (auto simp add: lock_def acquire_def Let_def split: if_splits option.splits)
  moreover have "k_retry m'"
    using assms(1) f unfolding m' coherent_def k_retry_def
    by (auto simp add: lock_def acquire_def Let_def split: if_splits option.splits)
  ultimately show ?thesis by (simp add: coherent_def)
next
  case (CallUnlock u)
  with assms(2) have "m' = snd (unlock u m)" by simp
  with assms(1) show ?thesis
    unfolding coherent_def k_defs
    by (auto simp add: unlock_def yieldLock_def Let_def split: if_splits list.splits)
next
  case (Deliver msg)
  with assms(2) have m': "m' = snd (wake (snd (notify msg (listeners m) m)))"
    by (auto simp add: split_beta Let_def)
  have "settling (snd (notify msg (listeners m) m))"
  proof (cases msg)
    case waiting
    with assms(1) show ?thesis by (simp add: notify_waiting_coherent coherent_settling)
  next
    case unlocked
    with assms(1) show ?thesis by (simp add: notify_unlocked_settling coherent_settling)
  qed
  then show ?thesis unfolding m' by (rule wake_coherent)
next
  case (Elapse d)
  with assms show ?thesis by (auto simp add: coherent_def k_defs)
next
  case (IntervalFires c)
  with assms show ?thesis by (auto simp add: coherent_def k_defs tryLock_def split: if_splits)
next
  case (TimeoutFires p)
  with assms(2) have m': "m' = snd (wake (finish p m))" by (auto split: if_splits)
  have "settling (finish p m)"
    using coherent_settling [OF assms(1)]
    unfolding settling_def k_defs by (auto simp add: finish_def)
  then show ?thesis unfolding m' by (rule wake_coherent)
next
  case (LockReplied c r)
  with assms show ?thesis
    unfolding coherent_def k_defs
    by (auto simp add: lockReplied_def contend_def tryLock_def settle_def Let_def
        split: if_splits sum.splits bool.splits option.splits)
next
  case (UnlockReplied p r)
  with assms show ?thesis
    by (auto simp add: coherent_def k_defs unlockReplied_def split: option.splits)
qed

lemma run_coherent:
  "coherent m \<Longrightarrow> run m evs = Some (es, m') \<Longrightarrow> coherent m'"
proof (induction evs arbitrary: m es)
  case Nil
  then show ?case by simp
next
  case (Cons ev evs)
  from Cons.prems(2) obtain o1 m1 o2 where s: "step m ev = Some (o1, m1)"
    and r: "run m1 evs = Some (o2, m')"
    by (auto split: option.splits prod.splits)
  from Cons.IH [OF step_coherent [OF Cons.prems(1) s] r] show ?case .
qed

lemma reachable_coherent: "run Mutex_init evs = Some (es, m) \<Longrightarrow> coherent m"
  using coherent_init by (rule run_coherent)

lemma handle_calls: "calls (snd (handle msg l m)) = calls m"
  by (cases msg; cases l; simp add: onWaiting_def yieldLock_def tryLock_def finish_def Let_def
        split: option.splits)+

lemma notify_calls: "calls (snd (notify msg ls m)) = calls m"
proof (induction ls arbitrary: m)
  case Nil
  then show ?case by simp
next
  case (Cons l ls)
  show ?case
    using Cons.IH [of "snd (handle msg l m)"] Cons.IH [of m] handle_calls [of msg l m]
    by (simp add: split_beta)
qed

lemma notify_waiting_keeps_settle:
  "YieldSettle p \<in> set (listeners m) \<Longrightarrow>
     YieldSettle p \<in> set (listeners (snd (notify waiting ls m)))"
proof (induction ls arbitrary: m)
  case Nil
  then show ?case by simp
next
  case (Cons l ls)
  have "YieldSettle p \<in> set (listeners (snd (handle waiting l m)))"
    using Cons.prems
    by (cases l) (auto simp add: onWaiting_def yieldLock_def Let_def split: option.splits)
  then show ?case
    using Cons.IH [of m] Cons.IH [of "snd (handle waiting l m)"] Cons.prems
    by (simp add: split_beta)
qed

lemma wake_await:
  assumes "suspended m c = Some (AwaitYield p)" and "c < calls m" and "k_woken m"
  shows "(YieldSettle p \<in> set (listeners m) \<and> YieldSettle p \<in> set (listeners (snd (wake m)))
       \<and> suspended (snd (wake m)) c = Some (AwaitYield p) \<and> ArbLock c \<notin> set (fst (wake m)))
     \<or> (YieldSettle p \<notin> set (listeners m) \<and> YieldSettle p \<notin> set (listeners (snd (wake m)))
       \<and> yieldPromise (snd (wake m)) = None
       \<and> suspended (snd (wake m)) c = Some AwaitFirst \<and> ArbLock c \<in> set (fst (wake m)))"
proof (cases "YieldSettle p \<in> set (listeners m)")
  case True
  have n: "c \<notin> set (woken m)" using woken_awaits [of c m] assms(1) True by auto
  then have "ArbLock c \<notin> set (fst (wake m))" by (auto simp add: wake_def resume_effects)
  moreover have "suspended (snd (wake m)) c = Some (AwaitYield p)"
    using n assms(1) by (simp add: wake_def resume_other)
  moreover have "YieldSettle p \<in> set (listeners (snd (wake m)))"
    using True by (simp add: wake_def resume_keeps)
  ultimately show ?thesis using True by simp
next
  case False
  from woken_mem [OF assms(1,2) False] have i: "c \<in> set (woken m)" .
  from assms(1,3) False have "yieldPromise m = None" by (auto simp add: k_woken_def)
  then have "yieldPromise (snd (wake m)) = None" by (simp add: wake_def resume_keeps)
  moreover have "ArbLock c \<in> set (fst (wake m))" using i by (simp add: wake_def resume_effects)
  moreover have "suspended (snd (wake m)) c = Some AwaitFirst"
    using i by (simp add: wake_def resume_suspended(1))
  moreover have "YieldSettle p \<notin> set (listeners (snd (wake m)))"
    using False by (auto simp add: wake_def resume_keeps)
  ultimately show ?thesis using False by simp
qed

lemma await_until_settled:
  assumes "coherent m" and "suspended m c = Some (AwaitYield p)"
    and "step m ev = Some (es, m')"
  shows "(YieldSettle p \<in> set (listeners m') \<and> suspended m' c = Some (AwaitYield p)
       \<and> ArbLock c \<notin> set es)
     \<or> ((ev = Deliver unlocked \<or> ev = TimeoutFires p) \<and> YieldSettle p \<notin> set (listeners m')
       \<and> yieldPromise m' = None \<and> suspended m' c = Some AwaitFirst \<and> ArbLock c \<in> set es)"
proof -
  have l: "YieldSettle p \<in> set (listeners m)"
    using assms(1,2) unfolding coherent_def k_await_def by blast
  have cb: "c < calls m"
    using assms(1,2) unfolding coherent_def k_bound_def by auto
  have nr: "RetryOnUnlocked c \<notin> set (listeners m)" "Retry c \<notin> set (timers m)"
    using assms(1,2) unfolding coherent_def k_retry_def by auto
  show ?thesis
  proof (cases ev)
    case CallLock
    with assms(3) l cb assms(2) show ?thesis
      by (auto simp add: lock_def acquire_def Let_def split: if_splits option.splits)
  next
    case (CallUnlock u)
    with assms(3) l cb assms(2) show ?thesis
      by (auto simp add: unlock_def yieldLock_def Let_def split: if_splits list.splits)
  next
    case (Deliver msg)
    let ?m1 = "snd (notify msg (listeners m) m)"
    let ?es1 = "fst (notify msg (listeners m) m)"
    from assms(3) Deliver have es: "es = ?es1 @ fst (wake ?m1)" and m': "m' = snd (wake ?m1)"
      by (auto simp add: split_beta Let_def)
    have s1: "suspended ?m1 c = Some (AwaitYield p)" "c < calls ?m1"
      using assms(2) cb by (simp_all add: notify_suspended notify_calls)
    have "settling ?m1"
    proof (cases msg)
      case waiting
      with assms(1) show ?thesis by (simp add: notify_waiting_coherent coherent_settling)
    next
      case unlocked
      with assms(1) show ?thesis by (simp add: notify_unlocked_settling coherent_settling)
    qed
    then have w: "k_woken ?m1" by (simp add: settling_def)
    have n1: "ArbLock c \<notin> set ?es1" using notify_lock_source [of c msg "listeners m" m] nr by blast
    have u: "msg = unlocked" if "YieldSettle p \<notin> set (listeners ?m1)"
      using that notify_waiting_keeps_settle [OF l, of "listeners m"] by (cases msg) auto
    from wake_await [OF s1 w] show ?thesis
      unfolding es m' using n1 u Deliver by auto
  next
    case (Elapse d)
    with assms(3) l assms(2) show ?thesis by auto
  next
    case (IntervalFires d)
    with assms(3) l assms(2) nr show ?thesis by (auto simp add: tryLock_def split: if_splits)
  next
    case (TimeoutFires q)
    let ?m1 = "finish q m"
    from assms(3) TimeoutFires have es: "es = fst (wake ?m1)" and m': "m' = snd (wake ?m1)"
      by (auto split: if_splits)
    have s1: "suspended ?m1 c = Some (AwaitYield p)" "c < calls ?m1"
      using assms(2) cb by (simp_all add: finish_def)
    have "settling ?m1"
      using coherent_settling [OF assms(1)]
      unfolding settling_def k_defs by (auto simp add: finish_def)
    then have w: "k_woken ?m1" by (simp add: settling_def)
    have u: "q = p" if "YieldSettle p \<notin> set (listeners ?m1)"
      using that l by (auto simp add: finish_def)
    from wake_await [OF s1 w] show ?thesis
      unfolding es m' using u TimeoutFires by auto
  next
    case (LockReplied d r)
    with assms(3) l assms(2) show ?thesis
      by (auto simp add: lockReplied_def contend_def tryLock_def settle_def Let_def
          split: if_splits sum.splits bool.splits option.splits)
  next
    case (UnlockReplied q r)
    with assms(3) l assms(2) show ?thesis
      by (auto simp add: unlockReplied_def split: option.splits)
  qed
qed

lemma lock_during_yield:
  assumes "coherent m" and "\<not> lockedOrPending m" and "yieldPromise m = Some p"
  shows "step m CallLock =
     Some ([Publish waiting],
           m\<lparr>calls := Suc (calls m), lockedOrPending := True,
             suspended := (suspended m)(calls m := Some (AwaitYield p))\<rparr>)"
proof -
  from assms(1,3) have "waitingListener m = None" by (simp add: coherent_def k_promise_def)
  with assms(2,3) show ?thesis by (simp add: lock_def Let_def)
qed

lemma yield_examples:
  "lockedOrPending peer_asked_example" "localQueue peer_asked_example = []"
  "waitingListener peer_asked_example = None" "yields peer_asked_example = 0"
  "PeerWatch 0 \<in> set (listeners soft_held_example)" "yields soft_held_example = 0"
  "YieldTimeout 0 \<in> set (timers yield_wait_example)"
  "YieldSettle 0 \<in> set (listeners yield_wait_example)"
  "suspended yield_wait_example 1 = Some (AwaitYield 0)" "calls yield_wait_example = 2"
  "now yield_wait_example = 0" "due yield_wait_example (YieldTimeout 0) = 500"
  "releasing yielding_example 0 = Some (Some 7)"
  "\<not> lockedOrPending yielding_example"
  "yieldPromise yielding_example = Some 0" "calls yielding_example = 1"
  "now peer_asked_example = 0" "now soft_held_example = 0"
  by (simp_all add: peer_asked_example_def yielding_example_def yield_wait_example_def
      soft_held_example_def Mutex_defs)

lemma yield_due_example_eq: "yield_due_example = yield_wait_example\<lparr>now := 500\<rparr>"
  by (simp add: yield_due_example_def yield_examples)

lemma yield_due_example_fields:
  "YieldTimeout 0 \<in> set (timers yield_due_example)"
  "YieldSettle 0 \<in> set (listeners yield_due_example)"
  "suspended yield_due_example 1 = Some (AwaitYield 0)" "calls yield_due_example = 2"
  "now yield_due_example = 500" "due yield_due_example (YieldTimeout 0) = 500"
  using yield_examples by (simp_all add: yield_due_example_eq)

lemma yield_examples_run:
  "run Mutex_init [CallLock, LockReplied 0 (Inr True), Deliver waiting, CallUnlock 7] =
     Some ([ArbLock 0, LockResolved 0, ArbUnlock 0], yielding_example)"
  "run Mutex_init [CallLock, LockReplied 0 (Inr True), Deliver waiting, CallUnlock 7, CallLock] =
     Some ([ArbLock 0, LockResolved 0, ArbUnlock 0, Publish waiting], yield_wait_example)"
  by (simp_all add: peer_asked_example_def yielding_example_def yield_wait_example_def Mutex_defs)

text \<open>
  C9. Yielding begins in \<open>unlock()\<close> (no local waiter, no peer listener left) or in the
  peer listener of a soft-held Mutex; in the step that sends the arbiter's \<open>unlock\<close>
  request, \<open>yieldPromise\<close> is set, its listener is subscribed and its timer is set, due
  500 milliseconds later. The timer, which does not fire before it is due, or a
  delivered \<^verbatim>\<open>'unlocked'\<close>, whichever comes, settles the promise: both are removed,
  \<open>yieldPromise\<close> is cleared, and the calls suspended on the promise go on to request
  the arbiter's lock. \<^verbatim>\<open>'unlocked'\<close> is published in no step but the one that takes the
  arbiter's successful answer to the release, and there it is. In every state a Mutex
  can reach, a \<open>lock()\<close> that arrives while \<open>yieldPromise\<close> is set, and that is not
  queued behind a local holder by lines 39-43, publishes \<^verbatim>\<open>'waiting'\<close> and suspends
  on the promise with no request to the arbiter; through every step that leaves the
  promise unsettled it stays suspended there and sends none, and the step that settles
  the promise, the timeout or the delivery of \<^verbatim>\<open>'unlocked'\<close>, sends its request.
\<close>

theorem yield_handshake:
  "(lockedOrPending m \<and> localQueue m = [] \<and> waitingListener m = None \<longrightarrow>
      (\<exists>m'. step m (CallUnlock u) = Some ([ArbUnlock (yields m)], m')
         \<and> yieldPromise m' = Some (yields m) \<and> YieldTimeout (yields m) \<in> set (timers m')
         \<and> due m' (YieldTimeout (yields m)) = now m + 500
         \<and> YieldSettle (yields m) \<in> set (listeners m')
         \<and> releasing m' (yields m) = Some (Some u) \<and> \<not> lockedOrPending m'))
   \<and> (\<not> lockedOrPending m \<and> waitingListener m = Some h \<and> PeerWatch x \<in> set (listeners m) \<longrightarrow>
      (\<exists>es m'. step m (Deliver waiting) = Some (es, m') \<and> ArbUnlock (yields m) \<in> set es
         \<and> yieldPromise m' = Some (yields m) \<and> YieldTimeout (yields m) \<in> set (timers m')
         \<and> due m' (YieldTimeout (yields m)) = now m + 500
         \<and> YieldSettle (yields m) \<in> set (listeners m')
         \<and> releasing m' (yields m) = Some None))
   \<and> (YieldTimeout p \<in> set (timers m) \<and> due m (YieldTimeout p) \<le> now m \<longrightarrow>
      (\<exists>es m'. step m (TimeoutFires p) = Some (es, m')
         \<and> yieldPromise m' = None \<and> YieldTimeout p \<notin> set (timers m')
         \<and> YieldSettle p \<notin> set (listeners m')
         \<and> (\<forall>c. suspended m c = Some (AwaitYield p) \<and> c < calls m \<longrightarrow>
              ArbLock c \<in> set es \<and> suspended m' c = Some AwaitFirst)))
   \<and> (now m < due m (YieldTimeout p) \<longrightarrow> step m (TimeoutFires p) = None)
   \<and> (YieldSettle p \<in> set (listeners m) \<longrightarrow>
      (\<exists>es m'. step m (Deliver unlocked) = Some (es, m')
         \<and> yieldPromise m' = None \<and> YieldTimeout p \<notin> set (timers m')
         \<and> YieldSettle p \<notin> set (listeners m')
         \<and> (\<forall>c. suspended m c = Some (AwaitYield p) \<and> c < calls m \<longrightarrow>
              ArbLock c \<in> set es \<and> suspended m' c = Some AwaitFirst)))
   \<and> (step m ev = Some (es, m') \<and> Publish unlocked \<in> set es \<longrightarrow>
      (\<exists>q. ev = UnlockReplied q None \<and> releasing m q \<noteq> None))
   \<and> (releasing m p = Some w \<longrightarrow>
      step m (UnlockReplied p None) =
        Some (Publish unlocked # (case w of Some t \<Rightarrow> [UnlockResolved t] | None \<Rightarrow> []),
              m\<lparr>releasing := (releasing m)(p := None)\<rparr>))
   \<and> (run Mutex_init evs = Some (out, m) \<and> \<not> lockedOrPending m \<and> yieldPromise m = Some p \<longrightarrow>
      step m CallLock =
        Some ([Publish waiting],
              m\<lparr>calls := Suc (calls m), lockedOrPending := True,
                suspended := (suspended m)(calls m := Some (AwaitYield p))\<rparr>))
   \<and> (run Mutex_init evs = Some (out, m) \<and> suspended m c = Some (AwaitYield p)
        \<and> step m ev = Some (es, m') \<longrightarrow>
      (YieldSettle p \<in> set (listeners m') \<and> suspended m' c = Some (AwaitYield p)
         \<and> ArbLock c \<notin> set es)
      \<or> ((ev = Deliver unlocked \<or> ev = TimeoutFires p) \<and> YieldSettle p \<notin> set (listeners m')
         \<and> yieldPromise m' = None \<and> suspended m' c = Some AwaitFirst \<and> ArbLock c \<in> set es))"
proof (intro conjI impI)
  assume "lockedOrPending m \<and> localQueue m = [] \<and> waitingListener m = None"
  then show "\<exists>m'. step m (CallUnlock u) = Some ([ArbUnlock (yields m)], m')
         \<and> yieldPromise m' = Some (yields m) \<and> YieldTimeout (yields m) \<in> set (timers m')
         \<and> due m' (YieldTimeout (yields m)) = now m + 500
         \<and> YieldSettle (yields m) \<in> set (listeners m')
         \<and> releasing m' (yields m) = Some (Some u) \<and> \<not> lockedOrPending m'"
    using yield_begins_in_unlock [of m u] by blast
next
  assume "\<not> lockedOrPending m \<and> waitingListener m = Some h \<and> PeerWatch x \<in> set (listeners m)"
  then show "\<exists>es m'. step m (Deliver waiting) = Some (es, m') \<and> ArbUnlock (yields m) \<in> set es
         \<and> yieldPromise m' = Some (yields m) \<and> YieldTimeout (yields m) \<in> set (timers m')
         \<and> due m' (YieldTimeout (yields m)) = now m + 500
         \<and> YieldSettle (yields m) \<in> set (listeners m')
         \<and> releasing m' (yields m) = Some None"
    using yield_begins_in_listener [of m h x] by blast
next
  assume "YieldTimeout p \<in> set (timers m) \<and> due m (YieldTimeout p) \<le> now m"
  then show "\<exists>es m'. step m (TimeoutFires p) = Some (es, m')
         \<and> yieldPromise m' = None \<and> YieldTimeout p \<notin> set (timers m')
         \<and> YieldSettle p \<notin> set (listeners m')
         \<and> (\<forall>c. suspended m c = Some (AwaitYield p) \<and> c < calls m \<longrightarrow>
              ArbLock c \<in> set es \<and> suspended m' c = Some AwaitFirst)"
    using settle_by_timeout [of p m] by blast
next
  assume "now m < due m (YieldTimeout p)"
  then show "step m (TimeoutFires p) = None" by simp
next
  assume "YieldSettle p \<in> set (listeners m)"
  then show "\<exists>es m'. step m (Deliver unlocked) = Some (es, m')
         \<and> yieldPromise m' = None \<and> YieldTimeout p \<notin> set (timers m')
         \<and> YieldSettle p \<notin> set (listeners m')
         \<and> (\<forall>c. suspended m c = Some (AwaitYield p) \<and> c < calls m \<longrightarrow>
              ArbLock c \<in> set es \<and> suspended m' c = Some AwaitFirst)"
    by (rule settle_by_message)
next
  assume "step m ev = Some (es, m') \<and> Publish unlocked \<in> set es"
  then show "\<exists>q. ev = UnlockReplied q None \<and> releasing m q \<noteq> None"
    using publish_unlocked_only_after_release [of m ev es m'] by blast
next
  assume "releasing m p = Some w"
  then show "step m (UnlockReplied p None) =
        Some (Publish unlocked # (case w of Some t \<Rightarrow> [UnlockResolved t] | None \<Rightarrow> []),
              m\<lparr>releasing := (releasing m)(p := None)\<rparr>)"
    by (rule release_replied)
next
  assume a: "run Mutex_init evs = Some (out, m) \<and> \<not> lockedOrPending m \<and> yieldPromise m = Some p"
  then have "coherent m" using reachable_coherent by blast
  with a show "step m CallLock =
        Some ([Publish waiting],
              m\<lparr>calls := Suc (calls m), lockedOrPending := True,
                suspended := (suspended m)(calls m := Some (AwaitYield p))\<rparr>)"
    using lock_during_yield [of m p] by blast
next
  assume a: "run Mutex_init evs = Some (out, m) \<and> suspended m c = Some (AwaitYield p)
        \<and> step m ev = Some (es, m')"
  then have "coherent m" using reachable_coherent by blast
  with a show "(YieldSettle p \<in> set (listeners m') \<and> suspended m' c = Some (AwaitYield p)
         \<and> ArbLock c \<notin> set es)
      \<or> ((ev = Deliver unlocked \<or> ev = TimeoutFires p) \<and> YieldSettle p \<notin> set (listeners m')
         \<and> yieldPromise m' = None \<and> suspended m' c = Some AwaitFirst \<and> ArbLock c \<in> set es)"
    using await_until_settled [of m c p ev es m'] by blast
qed

theorem yield_handshake_witness:
  "(lockedOrPending peer_asked_example \<and> localQueue peer_asked_example = []
      \<and> waitingListener peer_asked_example = None \<and> now peer_asked_example = 0
      \<and> (\<exists>m'. step peer_asked_example (CallUnlock 7) = Some ([ArbUnlock 0], m')
            \<and> yieldPromise m' = Some 0 \<and> due m' (YieldTimeout 0) = 500))
   \<and> (\<not> lockedOrPending soft_held_example \<and> waitingListener soft_held_example = Some 0
      \<and> PeerWatch 0 \<in> set (listeners soft_held_example)
      \<and> (\<exists>es m'. step soft_held_example (Deliver waiting) = Some (es, m')
            \<and> ArbUnlock 0 \<in> set es \<and> yieldPromise m' = Some 0))
   \<and> (YieldTimeout 0 \<in> set (timers yield_due_example)
      \<and> due yield_due_example (YieldTimeout 0) = 500 \<and> now yield_due_example = 500
      \<and> suspended yield_due_example 1 = Some (AwaitYield 0) \<and> calls yield_due_example = 2
      \<and> (\<exists>es m'. step yield_due_example (TimeoutFires 0) = Some (es, m')
            \<and> yieldPromise m' = None \<and> ArbLock 1 \<in> set es))
   \<and> (due yield_wait_example (YieldTimeout 0) = 500 \<and> now yield_wait_example = 0
      \<and> step yield_wait_example (TimeoutFires 0) = None)
   \<and> (YieldSettle 0 \<in> set (listeners yield_wait_example)
      \<and> suspended yield_wait_example 1 = Some (AwaitYield 0) \<and> calls yield_wait_example = 2
      \<and> (\<exists>es m'. step yield_wait_example (Deliver unlocked) = Some (es, m')
            \<and> yieldPromise m' = None \<and> ArbLock 1 \<in> set es))
   \<and> (releasing yielding_example 0 = Some (Some 7)
      \<and> step yielding_example (UnlockReplied 0 None) =
          Some ([Publish unlocked, UnlockResolved 7],
                yielding_example\<lparr>releasing := (releasing yielding_example)(0 := None)\<rparr>))
   \<and> (run Mutex_init [CallLock, LockReplied 0 (Inr True), Deliver waiting, CallUnlock 7] =
        Some ([ArbLock 0, LockResolved 0, ArbUnlock 0], yielding_example)
      \<and> \<not> lockedOrPending yielding_example \<and> yieldPromise yielding_example = Some 0
      \<and> map_option fst (step yielding_example CallLock) = Some [Publish waiting])
   \<and> (run Mutex_init [CallLock, LockReplied 0 (Inr True), Deliver waiting, CallUnlock 7, CallLock] =
        Some ([ArbLock 0, LockResolved 0, ArbUnlock 0, Publish waiting], yield_wait_example)
      \<and> step yield_wait_example (Elapse 500) = Some ([], yield_due_example)
      \<and> YieldSettle 0 \<in> set (listeners yield_due_example))"
proof -
  note t1 = yield_handshake [where m = peer_asked_example and u = 7 and h = 0 and x = 0
      and p = 0 and ev = CallLock and es = "[]" and m' = peer_asked_example and w = None
      and evs = "[]" and out = "[]" and c = 0]
  note t2 = yield_handshake [where m = soft_held_example and u = 7 and h = 0 and x = 0
      and p = 0 and ev = CallLock and es = "[]" and m' = soft_held_example and w = None
      and evs = "[]" and out = "[]" and c = 0]
  note t3 = yield_handshake [where m = yield_due_example and u = 7 and h = 0 and x = 0
      and p = 0 and ev = CallLock and es = "[]" and m' = yield_due_example and w = None
      and evs = "[]" and out = "[]" and c = 0]
  note t4 = yield_handshake [where m = yield_wait_example and u = 7 and h = 0 and x = 0
      and p = 0 and ev = "Elapse 500" and es = "[]" and m' = yield_due_example and w = None
      and evs = "[CallLock, LockReplied 0 (Inr True), Deliver waiting, CallUnlock 7, CallLock]"
      and out = "[ArbLock 0, LockResolved 0, ArbUnlock 0, Publish waiting]" and c = 1]
  note t5 = yield_handshake [where m = yielding_example and u = 7 and h = 0 and x = 0
      and p = 0 and ev = "UnlockReplied 0 None" and es = "[Publish unlocked, UnlockResolved 7]"
      and m' = "yielding_example\<lparr>releasing := (releasing yielding_example)(0 := None)\<rparr>"
      and w = "Some 7"
      and evs = "[CallLock, LockReplied 0 (Inr True), Deliver waiting, CallUnlock 7]"
      and out = "[ArbLock 0, LockResolved 0, ArbUnlock 0]" and c = 0]
  have a: "\<exists>m'. step peer_asked_example (CallUnlock 7) = Some ([ArbUnlock 0], m')
            \<and> yieldPromise m' = Some 0 \<and> due m' (YieldTimeout 0) = 500"
    using t1 [THEN conjunct1] yield_examples(1-4,17) by (simp del: step.simps) blast
  have b: "\<exists>es m'. step soft_held_example (Deliver waiting) = Some (es, m')
            \<and> ArbUnlock 0 \<in> set es \<and> yieldPromise m' = Some 0"
    using t2 [THEN conjunct2, THEN conjunct1] yield_examples(5,6) soft_held_example_fields(1,2)
    by (simp del: step.simps) blast
  have c: "\<exists>es m'. step yield_due_example (TimeoutFires 0) = Some (es, m')
            \<and> yieldPromise m' = None \<and> ArbLock 1 \<in> set es"
  proof -
    have "due yield_due_example (YieldTimeout 0) \<le> now yield_due_example"
      by (simp add: yield_due_example_fields)
    with t3 [THEN conjunct2, THEN conjunct2, THEN conjunct1] yield_due_example_fields(1)
    obtain es m' where s: "step yield_due_example (TimeoutFires 0) = Some (es, m')"
      "yieldPromise m' = None"
      and r: "\<forall>c. suspended yield_due_example c = Some (AwaitYield 0)
          \<and> c < calls yield_due_example \<longrightarrow>
        ArbLock c \<in> set es \<and> suspended m' c = Some AwaitFirst"
      by blast
    have "1 < calls yield_due_example" by (simp add: yield_due_example_fields)
    with r yield_due_example_fields(3) have "ArbLock 1 \<in> set es" by blast
    with s show ?thesis by blast
  qed
  have d: "step yield_wait_example (TimeoutFires 0) = None"
    using t4 [THEN conjunct2, THEN conjunct2, THEN conjunct2, THEN conjunct1] yield_examples(11,12)
    by (simp del: step.simps)
  have e: "\<exists>es m'. step yield_wait_example (Deliver unlocked) = Some (es, m')
            \<and> yieldPromise m' = None \<and> ArbLock 1 \<in> set es"
  proof -
    from t4 [THEN conjunct2, THEN conjunct2, THEN conjunct2, THEN conjunct2, THEN conjunct1]
      yield_examples(8)
    obtain es m' where s: "step yield_wait_example (Deliver unlocked) = Some (es, m')"
      "yieldPromise m' = None"
      and r: "\<forall>c. suspended yield_wait_example c = Some (AwaitYield 0)
          \<and> c < calls yield_wait_example \<longrightarrow>
        ArbLock c \<in> set es \<and> suspended m' c = Some AwaitFirst"
      by blast
    have "1 < calls yield_wait_example" by (simp add: yield_examples)
    with r yield_examples(9) have "ArbLock 1 \<in> set es" by blast
    with s show ?thesis by blast
  qed
  have f: "step yielding_example (UnlockReplied 0 None) =
          Some ([Publish unlocked, UnlockResolved 7],
                yielding_example\<lparr>releasing := (releasing yielding_example)(0 := None)\<rparr>)"
    using t5 [THEN conjunct2, THEN conjunct2, THEN conjunct2, THEN conjunct2, THEN conjunct2,
        THEN conjunct2, THEN conjunct1] yield_examples(13)
    by (simp del: step.simps)
  have g: "map_option fst (step yielding_example CallLock) = Some [Publish waiting]"
    using t5 [THEN conjunct2, THEN conjunct2, THEN conjunct2, THEN conjunct2, THEN conjunct2,
        THEN conjunct2, THEN conjunct2, THEN conjunct1] yield_examples(14,15) yield_examples_run(1)
    by (simp del: step.simps)
  have h: "step yield_wait_example (Elapse 500) = Some ([], yield_due_example)"
    by (simp add: yield_due_example_eq yield_examples)
  have i: "YieldSettle 0 \<in> set (listeners yield_due_example)"
    using t4 [THEN conjunct2, THEN conjunct2, THEN conjunct2, THEN conjunct2, THEN conjunct2,
        THEN conjunct2, THEN conjunct2, THEN conjunct2] yield_examples(9) yield_examples_run(2) h
    by (simp del: step.simps)
  show ?thesis
    using a b c d e f g h i yield_examples yield_due_example_fields yield_examples_run
      soft_held_example_fields
    by (simp del: step.simps)
qed

section \<open>Properties of scope\<close>







lemma scope_after_release:
  assumes "phase s = AwaitUnlock r" and "releasing m p = Some (Some u)"
  shows "scope_step u (s, m) (Env (UnlockReplied p None)) =
           Some ([Publish unlocked, UnlockResolved u], s\<lparr>phase := Settled r\<rparr>,
                 m\<lparr>releasing := (releasing m)(p := None)\<rparr>)"
    and "scope_step u (s, m) (Env (UnlockReplied p (Some e))) =
           Some ([UnlockRejected u e], s\<lparr>phase := Settled (Threw e)\<rparr>,
                 m\<lparr>releasing := (releasing m)(p := None)\<rparr>)"
  using assms by (simp_all add: unlockReplied_def)







section \<open>Mutual exclusion\<close>

text \<open>
  What one step of a Mutex does is one of the outcomes \<open>quiet\<close>, \<open>fast\<close>, \<open>fresh\<close>,
  \<open>handoff\<close>, \<open>softened\<close>, \<open>yielded\<close> and \<open>granted\<close>; first the loops over the
  listeners and over the woken calls, then each event.
\<close>

lemma reqs_simps [simp]:
  "reqs [] = []" "reqs (es @ es') = reqs es @ reqs es'"
  "reqs (ArbLock c # es) = ReqLock c # reqs es" "reqs (ArbUnlock p # es) = ReqUnlock p # reqs es"
  "reqs (Publish msg # es) = reqs es" "reqs (LockResolved c # es) = reqs es"
  "reqs (LockRejected c e # es) = reqs es" "reqs (UnlockResolved u # es) = reqs es"
  "reqs (UnlockRejected u e # es) = reqs es" "reqs (ConsoleError e # es) = reqs es"
  "reqs (ListenerThrew e # es) = reqs es"
  by (simp_all add: reqs_def List.map_filter_def)

lemma ress_simps [simp]:
  "ress [] = []" "ress (es @ es') = ress es @ ress es'"
  "ress (ArbLock c # es) = ress es" "ress (ArbUnlock p # es) = ress es"
  "ress (Publish msg # es) = ress es" "ress (LockResolved c # es) = c # ress es"
  "ress (LockRejected c e # es) = ress es" "ress (UnlockResolved u # es) = ress es"
  "ress (UnlockRejected u e # es) = ress es" "ress (ConsoleError e # es) = ress es"
  "ress (ListenerThrew e # es) = ress es"
  by (simp_all add: ress_def List.map_filter_def)

lemma resume_view:
  "lockedOrPending (snd (resume cs m)) = lockedOrPending m"
  "calls (snd (resume cs m)) = calls m"
  "timers (snd (resume cs m)) = timers m"
  "set (listeners (snd (resume cs m))) = set (listeners m) \<union> PeerWatch ` set cs"
  "suspended (snd (resume cs m)) = (\<lambda>c. if c \<in> set cs then Some AwaitFirst else suspended m c)"
  "fst (resume cs m) = map ArbLock cs"
  "cs = [] \<Longrightarrow> snd (resume cs m) = m"
  by (induction cs arbitrary: m) (auto simp add: split_beta acquire_def)

lemma woken_live: "c \<in> set (woken m) \<Longrightarrow> c \<in> live m \<and> c < calls m"
  by (auto simp add: woken_def live_def split: option.splits phase.splits)

lemma reqs_map_ArbLock [simp]: "reqs (map ArbLock cs) = map ReqLock cs"
  by (induction cs) simp_all

lemma ress_map_ArbLock [simp]: "ress (map ArbLock cs) = []"
  by (induction cs) simp_all

lemma wake_quiet:
  assumes "tidy m"
  shows "quiet m (fst (wake m)) (snd (wake m))"
proof (cases "woken m = []")
  case True
  then show ?thesis
    using assms by (simp add: wake_def resume_view(7) quiet_def tidy_def)
next
  case False
  then obtain c where c: "c \<in> set (woken m)" by (cases "woken m") auto
  have w: "\<And>c. c \<in> set (woken m) \<Longrightarrow> suspended m c \<noteq> None \<and> c < calls m"
    using woken_live [of _ m] by (simp add: live_def)
  from w [OF c] have "live m \<noteq> {}" by (auto simp add: live_def)
  with assms have lp: "lockedOrPending m" by (simp add: tidy_def)
  show ?thesis
    unfolding quiet_def
    using w assms lp
    by (auto simp add: wake_def resume_view live_def bounded_def tidy_def soft_held_def)
qed

lemma quiet_refl: "bounded m \<Longrightarrow> quiet m [] m"
  by (simp add: quiet_def)

lemma quiet_trans:
  "quiet m es1 m1 \<Longrightarrow> quiet m1 es2 m2 \<Longrightarrow> quiet m (es1 @ es2) m2"
  unfolding quiet_def by (auto; force)

lemma handle_unlocked_quiet:
  "bounded m \<Longrightarrow> l \<in> set (listeners m) \<Longrightarrow>
     quiet m (fst (handle unlocked l m)) (snd (handle unlocked l m))"
  by (cases l)
     (auto simp add: quiet_def tryLock_def finish_def bounded_def soft_held_def live_def)

lemma notify_unlocked_quiet:
  "bounded m \<Longrightarrow> quiet m (fst (notify unlocked ls m)) (snd (notify unlocked ls m))"
proof (induction ls arbitrary: m)
  case Nil
  then show ?case by (simp add: quiet_refl)
next
  case (Cons l ls)
  show ?case
  proof (cases "l \<in> set (listeners m)")
    case True
    let ?m1 = "snd (handle unlocked l m)"
    have q1: "quiet m (fst (handle unlocked l m)) ?m1"
      using Cons.prems True by (rule handle_unlocked_quiet)
    then have "bounded ?m1" by (simp add: quiet_def)
    from quiet_trans [OF q1 Cons.IH [OF this]] True show ?thesis
      by (simp add: split_beta)
  next
    case False
    with Cons show ?thesis by simp
  qed
qed

lemma notify_waiting_idle_effects:
  "waitingListener m = None \<Longrightarrow>
     snd (notify waiting ls m) = m \<and> reqs (fst (notify waiting ls m)) = []
     \<and> ress (fst (notify waiting ls m)) = []"
proof (induction ls)
  case Nil
  then show ?case by simp
next
  case (Cons l ls)
  then show ?case by (cases l) (simp_all add: split_beta onWaiting_def)
qed

lemma notify_waiting_outcome:
  "bounded m \<Longrightarrow>
     (quiet m (fst (notify waiting ls m)) (snd (notify waiting ls m))
        \<and> reqs (fst (notify waiting ls m)) = []
        \<and> live (snd (notify waiting ls m)) = live m
        \<and> calls (snd (notify waiting ls m)) = calls m)
     \<or> (soft_held m \<and> yielded m (fst (notify waiting ls m)) (snd (notify waiting ls m)))"
proof (induction ls arbitrary: m)
  case Nil
  then show ?case by (simp add: quiet_refl)
next
  case (Cons l ls)
  show ?case
  proof (cases "\<exists>y. l = PeerWatch y \<and> l \<in> set (listeners m)")
    case False
    then have "notify waiting (l # ls) m = notify waiting ls m"
      by (cases l) (auto simp add: split_beta)
    with Cons show ?thesis by simp
  next
    case True
    then obtain y where l: "l = PeerWatch y" "l \<in> set (listeners m)" by blast
    show ?thesis
    proof (cases "waitingListener m")
      case None
      from notify_waiting_idle_effects [OF this, of "l # ls"] Cons.prems
      show ?thesis by (simp add: quiet_def)
    next
      case (Some h)
      let ?m1 = "m\<lparr>listeners := removeAll (PeerWatch h) (listeners m), waitingListener := None\<rparr>"
      have b1: "bounded ?m1" using Cons.prems by (simp add: bounded_def)
      show ?thesis
      proof (cases "lockedOrPending m")
        case True
        have h1: "handle waiting l m = ([], ?m1)"
          using l Some True by (simp add: onWaiting_def Let_def)
        have "waitingListener ?m1 = None" by simp
        from notify_waiting_idle_effects [OF this, of ls] h1 l
        have "snd (notify waiting (l # ls) m) = ?m1" "reqs (fst (notify waiting (l # ls) m)) = []"
          "ress (fst (notify waiting (l # ls) m)) = []"
          by (simp_all add: split_beta)
        then show ?thesis
          using True b1 by (simp add: quiet_def soft_held_def live_def)
      next
        case False
        let ?m2 = "snd (yieldLock None ?m1)"
        have h1: "handle waiting l m = yieldLock None ?m1"
          using l Some False by (simp add: onWaiting_def Let_def)
        have "waitingListener ?m2 = None" by (simp add: yieldLock_def Let_def)
        from notify_waiting_idle_effects [OF this, of ls] h1 l
        have "snd (notify waiting (l # ls) m) = ?m2"
          "reqs (fst (notify waiting (l # ls) m)) = [ReqUnlock (yields m)]"
          "ress (fst (notify waiting (l # ls) m)) = []"
          by (simp_all add: split_beta yieldLock_def Let_def)
        then have "soft_held m \<and> yielded m (fst (notify waiting (l # ls) m)) (snd (notify waiting (l # ls) m))"
          using False Some b1
          by (simp add: yielded_def soft_held_def live_def yieldLock_def Let_def bounded_def)
        then show ?thesis by simp
      qed
    qed
  qed
qed

lemma outcome_call_lock:
  assumes "tidy m" and "step m CallLock = Some (es, m')"
  shows "quiet m es m' \<or> fast m es m' \<or> fresh m es m'"
proof -
  have b: "bounded m" and l: "live m \<noteq> {} \<longrightarrow> lockedOrPending m"
    using assms(1) by (simp_all add: tidy_def)
  show ?thesis
  proof (cases "lockedOrPending m")
    case True
    with assms(2) b have "quiet m es m'"
      by (auto simp add: lock_def Let_def quiet_def soft_held_def live_def bounded_def;
          blast intro: less_SucI)
    then show ?thesis by simp
  next
    case False
    with l have e: "live m = {}" by blast
    show ?thesis
    proof (cases "waitingListener m")
      case (Some h)
      with assms(2) b False have "fast m es m'"
        by (auto simp add: lock_def Let_def fast_def soft_held_def live_def bounded_def;
            blast intro: less_SucI)
      then show ?thesis by simp
    next
      case None
      with assms(2) b False have "fresh m es m'"
        by (auto simp add: lock_def acquire_def Let_def fresh_def soft_held_def live_def bounded_def
            less_Suc_eq split: option.splits if_splits)
      then show ?thesis by simp
    qed
  qed
qed

lemma outcome_call_unlock:
  assumes "tidy m" and "step m (CallUnlock u) = Some (es, m')"
  shows "(\<not> lockedOrPending m \<and> quiet m es m') \<or> handoff m es m' \<or> softened m es m'
     \<or> (lockedOrPending m \<and> yielded m es m')"
proof -
  have b: "bounded m" using assms(1) by (simp add: tidy_def)
  show ?thesis
  proof (cases "lockedOrPending m")
    case False
    with assms(2) b show ?thesis by (auto simp add: unlock_def quiet_def)
  next
    case True
    show ?thesis
    proof (cases "localQueue m")
      case (Cons c q)
      with assms(2) b True have "handoff m es m'"
        by (auto simp add: unlock_def handoff_def live_def bounded_def)
      then show ?thesis by simp
    next
      case Nil
      show ?thesis
      proof (cases "waitingListener m")
        case (Some h)
        with assms(2) b True Nil have "softened m es m'"
          by (auto simp add: unlock_def softened_def soft_held_def live_def bounded_def)
        then show ?thesis by simp
      next
        case None
        with assms(2) b True Nil have "yielded m es m'"
          by (auto simp add: unlock_def yieldLock_def Let_def yielded_def soft_held_def live_def
              bounded_def)
        with True show ?thesis by simp
      qed
    qed
  qed
qed

lemma outcome_deliver:
  assumes "tidy m" and "step m (Deliver msg) = Some (es, m')"
  shows "quiet m es m' \<or> (soft_held m \<and> yielded m es m')"
proof -
  have b: "bounded m" and l: "live m \<noteq> {} \<longrightarrow> lockedOrPending m"
    using assms(1) by (simp_all add: tidy_def)
  let ?es1 = "fst (notify msg (listeners m) m)" and ?m1 = "snd (notify msg (listeners m) m)"
  have es: "es = ?es1 @ fst (wake ?m1)" and m': "m' = snd (wake ?m1)"
    using assms(2) by (auto simp add: split_beta Let_def)
  show ?thesis
  proof (cases msg)
    case unlocked
    have q1: "quiet m ?es1 ?m1" unfolding unlocked using b by (rule notify_unlocked_quiet)
    then have "tidy ?m1" using l by (auto simp add: tidy_def quiet_def)
    from quiet_trans [OF q1 wake_quiet [OF this]] show ?thesis by (simp add: es m')
  next
    case waiting
    from notify_waiting_outcome [OF b, of "listeners m"]
    consider (q) "quiet m ?es1 ?m1"
      | (y) "soft_held m" "yielded m ?es1 ?m1"
      unfolding waiting by blast
    then show ?thesis
    proof cases
      case q
      then have "tidy ?m1" using l by (auto simp add: tidy_def quiet_def)
      from quiet_trans [OF q wake_quiet [OF this]] show ?thesis by (simp add: es m')
    next
      case y
      from y(1) l have "live m = {}" by (auto simp add: soft_held_def)
      with y(2) have e: "live ?m1 = {}" and b1: "bounded ?m1" by (simp_all add: yielded_def)
      have "woken ?m1 = []"
        using woken_live [of _ ?m1] e by (cases "woken ?m1") auto
      then have "wake ?m1 = ([], ?m1)"
        by (simp add: wake_def)
      with y show ?thesis by (simp add: es m')
    qed
  qed
qed

lemma outcome_elapse:
  assumes "tidy m" and "step m (Elapse d) = Some (es, m')"
  shows "quiet m es m'"
  using assms
  by (auto simp add: tidy_def quiet_def soft_held_def live_def bounded_def reqs_def ress_def)

lemma outcome_timers:
  assumes "tidy m" and "step m ev = Some (es, m')"
    and "(\<exists>c. ev = IntervalFires c) \<or> (\<exists>p. ev = TimeoutFires p)"
  shows "quiet m es m'"
proof -
  have b: "bounded m" and l: "live m \<noteq> {} \<longrightarrow> lockedOrPending m"
    using assms(1) by (simp_all add: tidy_def)
  from assms(3) show ?thesis
  proof
    assume "\<exists>c. ev = IntervalFires c"
    with assms(2) b show ?thesis
      by (auto simp add: tryLock_def quiet_def soft_held_def live_def bounded_def split: if_splits)
  next
    assume "\<exists>p. ev = TimeoutFires p"
    then obtain p where ev: "ev = TimeoutFires p" by blast
    with assms(2) have w: "wake (finish p m) = (es, m')" by (auto split: if_splits)
    have q1: "quiet m [] (finish p m)"
      using b by (auto simp add: finish_def quiet_def soft_held_def live_def bounded_def)
    then have "tidy (finish p m)" using l by (auto simp add: tidy_def quiet_def)
    from quiet_trans [OF q1 wake_quiet [OF this]] w show ?thesis by simp
  qed
qed

lemma settle_outcome:
  assumes "bounded m" and "settle c r m = (es, m')"
  shows "quiet m es m' \<or> (r = None \<and> granted c m es m')"
proof (cases "suspended m c = Some Contended")
  case False
  with assms show ?thesis by (simp add: settle_def quiet_def)
next
  case True
  let ?m' = "m\<lparr>timers := removeAll (Retry c) (timers m),
               listeners := removeAll (RetryOnUnlocked c) (listeners m),
               suspended := (suspended m)(c := None)\<rparr>"
  from assms(2) True have m': "m' = ?m'" by (simp add: settle_def)
  have b: "bounded ?m'" using assms(1) by (simp add: bounded_def)
  have l: "live ?m' = live m - {c}" by (auto simp add: live_def)
  show ?thesis
  proof (cases r)
    case None
    with assms(2) True have "es = [LockResolved c]" by (simp add: settle_def)
    with True b l None show ?thesis by (simp add: m' granted_def soft_held_def)
  next
    case (Some e)
    with assms(2) True have "es = [LockRejected c e]" by (simp add: settle_def)
    with b l show ?thesis by (auto simp add: m' quiet_def soft_held_def)
  qed
qed

lemma outcome_lock_reply:
  assumes "tidy m" and "step m (LockReplied c r) = Some (es, m')"
  shows "quiet m es m' \<or> (r = Inr True \<and> granted c m es m')"
proof -
  have b: "bounded m" using assms(1) by (simp add: tidy_def)
  show ?thesis
  proof (cases "suspended m c = Some AwaitFirst")
    case True
    then have c: "c < calls m" using b by (simp add: bounded_def)
    show ?thesis
    proof (cases r)
      case (Inl e)
      with assms(2) True have "es = [LockRejected c e]"
        "m' = m\<lparr>suspended := (suspended m)(c := None)\<rparr>"
        by (simp_all add: lockReplied_def)
      with b show ?thesis by (auto simp add: quiet_def soft_held_def live_def bounded_def)
    next
      case (Inr g)
      show ?thesis
      proof (cases g)
        case True
        with assms(2) Inr \<open>suspended m c = Some AwaitFirst\<close> have "es = [LockResolved c]"
          "m' = m\<lparr>suspended := (suspended m)(c := None)\<rparr>"
          by (simp_all add: lockReplied_def)
        with b True Inr \<open>suspended m c = Some AwaitFirst\<close> show ?thesis
          by (auto simp add: granted_def soft_held_def live_def bounded_def)
      next
        case False
        with assms(2) Inr \<open>suspended m c = Some AwaitFirst\<close> have "es = [ArbLock c]"
          "m' = m\<lparr>listeners := listeners m @ [RetryOnUnlocked c], timers := timers m @ [Retry c],
                  due := (due m)(Retry c := now m + 500),
                  suspended := (suspended m)(c := Some Contended),
                  retrying := (retrying m)(c := Suc (retrying m c))\<rparr>"
          by (simp_all add: lockReplied_def contend_def tryLock_def)
        moreover have "bounded (m\<lparr>listeners := listeners m @ [RetryOnUnlocked c],
                  timers := timers m @ [Retry c],
                  due := (due m)(Retry c := now m + 500),
                  suspended := (suspended m)(c := Some Contended),
                  retrying := (retrying m)(c := Suc (retrying m c))\<rparr>)"
          using b c unfolding bounded_def by auto
        ultimately show ?thesis
          using c \<open>suspended m c = Some AwaitFirst\<close>
          by (auto simp add: quiet_def soft_held_def live_def)
      qed
    qed
  next
    case False
    let ?m1 = "m\<lparr>retrying := (retrying m)(c := retrying m c - 1)\<rparr>"
    have b1: "bounded ?m1" using b by (simp add: bounded_def)
    from assms(2) False have pos: "0 < retrying m c"
      by (simp add: lockReplied_def split: if_splits)
    have q1: "quiet m [] ?m1" using b1 by (simp add: quiet_def soft_held_def live_def)
    show ?thesis
    proof (cases r)
      case (Inl e)
      with assms(2) False pos have "settle c (Some e) ?m1 = (es, m')"
        by (simp add: lockReplied_def Let_def)
      from settle_outcome [OF b1 this] have "quiet ?m1 es m'" by simp
      from quiet_trans [OF q1 this] show ?thesis by simp
    next
      case (Inr g)
      show ?thesis
      proof (cases g)
        case True
        with assms(2) Inr False pos have "settle c None ?m1 = (es, m')"
          by (simp add: lockReplied_def Let_def)
        from settle_outcome [OF b1 this]
        have "quiet ?m1 es m' \<or> granted c ?m1 es m'" by simp
        then show ?thesis
        proof
          assume "quiet ?m1 es m'"
          from quiet_trans [OF q1 this] show ?thesis by simp
        next
          assume "granted c ?m1 es m'"
          then have "granted c m es m'" by (auto simp add: granted_def soft_held_def live_def)
          with True Inr show ?thesis by simp
        qed
      next
        case g: False
        with assms(2) Inr False pos have "es = [Publish waiting]" "m' = ?m1"
          by (simp_all add: lockReplied_def Let_def)
        with b1 show ?thesis by (simp add: quiet_def soft_held_def live_def)
      qed
    qed
  qed
qed

lemma outcome_unlock_reply:
  assumes "tidy m" and "step m (UnlockReplied p r) = Some (es, m')"
  shows "quiet m es m'"
  using assms
  by (auto simp add: unlockReplied_def quiet_def soft_held_def live_def bounded_def tidy_def
      split: option.splits)

text \<open>
  Each outcome keeps the invariant of the Mutex that took the step.
\<close>

lemma pinv_quiet:
  assumes "pinv ow i m ins rq rp" and "quiet m es m'"
  shows "pinv ow i m' (ins \<union> set (ress es)) (sent rq es) rp"
proof -
  note q = assms(2) [unfolded quiet_def]
  have r [simp]: "ress es = []" using q by simp
  have u [simp]: "sent rq es (ReqUnlock p) = rq (ReqUnlock p)" for p
    using q by (auto simp add: sent_def count_list_0_iff)
  have l: "0 < sent rq es (ReqLock c) \<Longrightarrow> 0 < rq (ReqLock c) \<or> c < calls m'" for c
    using q by (cases "ReqLock c \<in> set (reqs es)") (auto simp add: sent_def count_list_0_iff)
  have s: "suspended m' c \<noteq> None \<Longrightarrow> suspended m c \<noteq> None" for c
    using q by (auto simp add: live_def)
  have sh [simp]: "soft_held m' = soft_held m" and lp [simp]: "lockedOrPending m' = lockedOrPending m"
    and ca: "calls m \<le> calls m'" and b: "bounded m'" and ls: "live m' \<subseteq> live m"
    using q by simp_all
  have "p_hold ow i m' ins"
    using assms(1) by (simp add: pinv_def p_hold_def)
  moreover have "p_release ow i m' ins (sent rq es)"
    using assms(1) by (simp add: pinv_def p_release_def)
  moreover have "p_grant ow i m' (sent rq es) rp"
    using assms(1) s unfolding pinv_def p_grant_def u by blast
  moreover have "p_local m' ins"
  proof -
    from assms(1) have pl: "p_local m ins" by (simp add: pinv_def)
    then have "tidy m'" using b ls by (auto simp add: p_local_def tidy_def)
    moreover have "\<forall>c d. c \<in> live m' \<and> d \<in> live m' \<longrightarrow> c = d"
      using pl ls unfolding p_local_def by blast
    moreover have "ins \<noteq> {} \<longrightarrow>
        lockedOrPending m' \<and> live m' = {} \<and> (\<forall>c d. c \<in> ins \<and> d \<in> ins \<longrightarrow> c = d)"
      using pl ls unfolding p_local_def lp by blast
    ultimately show ?thesis by (simp add: p_local_def)
  qed
  moreover have "p_fresh m' (sent rq es) rp"
  proof -
    from assms(1) have pf: "p_fresh m rq rp" by (simp add: pinv_def)
    have "c < calls m'" if "0 < rp (LockReplied c r)" for c r
      using pf that ca unfolding p_fresh_def by (meson less_le_trans)
    moreover have "c < calls m'" if "0 < sent rq es (ReqLock c)" for c
      using pf l [OF that] ca unfolding p_fresh_def by (meson less_le_trans)
    moreover have "\<forall>ev. 0 < rp ev \<longrightarrow> rejected ev \<noteq> None"
      using pf unfolding p_fresh_def by blast
    ultimately show ?thesis by (simp add: p_fresh_def)
  qed
  ultimately show ?thesis by (simp add: pinv_def)
qed

lemma sent_none [simp]: "reqs es = [] \<Longrightarrow> sent rq es = rq"
  by (simp add: sent_def)

lemma pinv_holding:
  assumes "pinv ow i m ins rq rp" and "ins \<noteq> {} \<or> soft_held m"
  shows "ow = Some i" and "rq (ReqUnlock p) = 0" and "live m = {}" and "c \<in> ins \<Longrightarrow> ins = {c}"
    and "c \<in> ins \<Longrightarrow> lockedOrPending m"
proof -
  from assms show "ow = Some i" by (simp add: pinv_def p_hold_def)
  from assms have "\<not> 0 < rq (ReqUnlock p)"
    unfolding pinv_def p_release_def by blast
  then show "rq (ReqUnlock p) = 0" by simp
  from assms have pl: "p_local m ins" by (simp add: pinv_def)
  show "live m = {}"
  proof (cases "ins = {}")
    case True
    with assms(2) have "\<not> lockedOrPending m" by (simp add: soft_held_def)
    with pl show ?thesis by (auto simp add: p_local_def tidy_def)
  next
    case False
    with pl show ?thesis by (simp add: p_local_def)
  qed
  show "ins = {c}" if "c \<in> ins"
    using pl that unfolding p_local_def by blast
  show "lockedOrPending m" if "c \<in> ins"
    using pl that unfolding p_local_def by blast
qed

lemma pinv_idle:
  assumes "pinv ow i m ins rq rp" and "\<not> lockedOrPending m"
  shows "ins = {}" and "live m = {}"
  using assms by (auto simp add: pinv_def p_local_def tidy_def)

lemma pinv_enter:
  assumes "pinv ow i m ins rq rp" and "ow = Some i" and "\<And>p. rq (ReqUnlock p) = 0"
    and "lockedOrPending m'" and "live m' = {}" and "bounded m'" and "calls m \<le> calls m'"
  shows "pinv ow i m' {c} rq rp"
proof -
  have "p_hold ow i m' {c}" using assms(2) by (simp add: p_hold_def)
  moreover have "p_release ow i m' {c} rq" using assms(3) by (simp add: p_release_def)
  moreover have "p_grant ow i m' rq rp"
    using assms(5) by (simp add: p_grant_def live_def)
  moreover have "p_local m' {c}"
    using assms(4,5,6) by (simp add: p_local_def tidy_def)
  moreover have "p_fresh m' rq rp"
  proof -
    from assms(1) have pf: "p_fresh m rq rp" by (simp add: pinv_def)
    have "d < calls m'" if "0 < rp (LockReplied d r)" for d r
      using pf that assms(7) unfolding p_fresh_def by (meson less_le_trans)
    moreover have "d < calls m'" if "0 < rq (ReqLock d)" for d
      using pf that assms(7) unfolding p_fresh_def by (meson less_le_trans)
    moreover have "\<forall>ev. 0 < rp ev \<longrightarrow> rejected ev \<noteq> None"
      using pf unfolding p_fresh_def by blast
    ultimately show ?thesis by (simp add: p_fresh_def)
  qed
  ultimately show ?thesis by (simp add: pinv_def)
qed

lemma pinv_soften:
  assumes "pinv ow i m ins rq rp" and "ow = Some i" and "\<And>p. rq (ReqUnlock p) = 0"
    and "live m' = {}" and "bounded m'" and "calls m' = calls m"
  shows "pinv ow i m' {} rq rp"
proof -
  have "p_hold ow i m' {}" using assms(2) by (simp add: p_hold_def)
  moreover have "p_release ow i m' {} rq" using assms(3) by (simp add: p_release_def)
  moreover have "p_grant ow i m' rq rp"
    using assms(4) by (simp add: p_grant_def live_def)
  moreover have "p_local m' {}"
    using assms(4,5) by (simp add: p_local_def tidy_def)
  moreover have "p_fresh m' rq rp"
    using assms(1,6) by (simp add: pinv_def p_fresh_def)
  ultimately show ?thesis by (simp add: pinv_def)
qed

lemma pinv_yield:
  assumes "pinv ow i m ins rq rp" and "ow = Some i" and "\<And>p. rq (ReqUnlock p) = 0"
    and "yielded m es m'" and "live m = {}"
  shows "pinv ow i m' {} (sent rq es) rp"
proof -
  note y = assms(4) [unfolded yielded_def]
  from y obtain p where p: "reqs es = [ReqUnlock p]" by blast
  have u: "sent rq es (ReqUnlock q) = (if q = p then 1 else 0)" for q
    using assms(3) p by (simp add: sent_def)
  have l: "sent rq es (ReqLock c) = rq (ReqLock c)" for c
    using p by (simp add: sent_def)
  have e: "live m' = {}" using y assms(5) by simp
  have "p_hold ow i m' {}" using y by (simp add: p_hold_def)
  moreover have "p_release ow i m' {} (sent rq es)"
    using assms(2) y by (simp add: p_release_def u)
  moreover have "p_grant ow i m' (sent rq es) rp"
    using e by (simp add: p_grant_def live_def)
  moreover have "p_local m' {}"
    using e y by (simp add: p_local_def tidy_def)
  moreover have "p_fresh m' (sent rq es) rp"
    using assms(1) y by (simp add: pinv_def p_fresh_def l)
  ultimately show ?thesis by (simp add: pinv_def)
qed

lemma pinv_fresh:
  assumes "pinv ow i m ins rq rp" and "fresh m es m'"
  shows "pinv ow i m' (ins \<union> set (ress es)) (sent rq es) rp"
proof -
  note f = assms(2) [unfolded fresh_def]
  from pinv_idle [OF assms(1)] f have i0: "ins = {}" and l0: "live m = {}" by simp_all
  have r [simp]: "ress es = []" using f by simp
  have u [simp]: "sent rq es (ReqUnlock p) = rq (ReqUnlock p)" for p
    using f by (auto simp add: sent_def count_list_0_iff)
  have l: "0 < sent rq es (ReqLock c) \<Longrightarrow> 0 < rq (ReqLock c) \<or> c = calls m" for c
    using f by (cases "ReqLock c \<in> set (reqs es)") (auto simp add: sent_def count_list_0_iff)
  have lv: "live m' = {calls m}" using f l0 by simp
  have nsh: "\<not> soft_held m'" using f by (simp add: soft_held_def)
  from assms(1) have pf: "p_fresh m rq rp" by (simp add: pinv_def)
  have "p_hold ow i m' {}" using nsh by (simp add: p_hold_def)
  moreover have "p_release ow i m' {} (sent rq es)"
    using assms(1) nsh i0 by (simp add: pinv_def p_release_def)
  moreover have "p_grant ow i m' (sent rq es) rp"
  proof -
    have "\<not> (0 < rp (LockReplied c (Inr True)) \<and> suspended m' c \<noteq> None)" for c
    proof
      assume a: "0 < rp (LockReplied c (Inr True)) \<and> suspended m' c \<noteq> None"
      then have "c \<in> live m'" by (simp add: live_def)
      with lv have "c = calls m" by simp
      moreover from a pf have "c < calls m" unfolding p_fresh_def by blast
      ultimately show False by simp
    qed
    then show ?thesis unfolding p_grant_def by blast
  qed
  moreover have "p_local m' {}"
    using f lv by (simp add: p_local_def tidy_def)
  moreover have "p_fresh m' (sent rq es) rp"
  proof -
    have cm: "calls m' = Suc (calls m)" using f by simp
    have "c < calls m'" if "0 < rp (LockReplied c r)" for c r
    proof -
      from pf that have "c < calls m" unfolding p_fresh_def by blast
      then show ?thesis by (simp add: cm)
    qed
    moreover have "c < calls m'" if "0 < sent rq es (ReqLock c)" for c
    proof -
      from pf l [OF that] have "c < calls m \<or> c = calls m" unfolding p_fresh_def by blast
      then show ?thesis by (auto simp add: cm)
    qed
    moreover have "\<forall>ev. 0 < rp ev \<longrightarrow> rejected ev \<noteq> None"
      using pf unfolding p_fresh_def by blast
    ultimately show ?thesis by (simp add: p_fresh_def)
  qed
  ultimately show ?thesis by (simp add: pinv_def i0)
qed

lemma pstep_spontaneous:
  assumes "pinv ow i m ins rq rp" and "spontaneous ev" and "step m ev = Some (es, m')"
  shows "pinv ow i m' (ins \<union> set (ress es)) (sent rq es) rp"
proof -
  from assms(1) have t: "tidy m" by (simp add: pinv_def p_local_def)
  have yield: ?thesis if sh: "soft_held m" and y: "yielded m es m'"
  proof -
    from sh have "\<not> lockedOrPending m" by (simp add: soft_held_def)
    from pinv_idle [OF assms(1) this] have i0: "ins = {}" and l0: "live m = {}" .
    from sh have h: "ins \<noteq> {} \<or> soft_held m" by simp
    from pinv_yield [OF assms(1) pinv_holding(1) [OF assms(1) h] pinv_holding(2) [OF assms(1) h] y l0]
    show ?thesis using i0 y by (simp add: yielded_def)
  qed
  show ?thesis
  proof (cases ev)
    case CallLock
    from outcome_call_lock [OF t assms(3) [unfolded CallLock]]
    consider (q) "quiet m es m'" | (f) "fast m es m'" | (n) "fresh m es m'" by blast
    then show ?thesis
    proof cases
      case q
      with assms(1) show ?thesis by (rule pinv_quiet)
    next
      case f
      note f' = f [unfolded fast_def]
      from f' have sh: "soft_held m" by simp
      then have "\<not> lockedOrPending m" by (simp add: soft_held_def)
      from pinv_idle [OF assms(1) this] have i0: "ins = {}" and l0: "live m = {}" .
      from sh have h: "ins \<noteq> {} \<or> soft_held m" by simp
      have "pinv ow i m' {calls m} rq rp"
        using assms(1) pinv_holding(1) [OF assms(1) h] pinv_holding(2) [OF assms(1) h]
      proof (rule pinv_enter)
        show "lockedOrPending m'" "live m' = {}" "bounded m'" "calls m \<le> calls m'"
          using f' l0 by simp_all
      qed
      then show ?thesis using f' i0 by simp
    next
      case n
      with assms(1) show ?thesis by (rule pinv_fresh)
    qed
  next
    case (Deliver msg)
    from outcome_deliver [OF t assms(3) [unfolded Deliver]]
    consider (q) "quiet m es m'" | (y) "soft_held m" "yielded m es m'" by blast
    then show ?thesis
    proof cases
      case q
      with assms(1) show ?thesis by (rule pinv_quiet)
    next
      case y
      then show ?thesis by (rule yield)
    qed
  next
    case (Elapse d)
    from outcome_elapse [OF t assms(3) [unfolded Elapse]] have "quiet m es m'" .
    with assms(1) show ?thesis by (rule pinv_quiet)
  next
    case (IntervalFires c)
    then have "quiet m es m'" using outcome_timers [OF t assms(3)] by simp
    with assms(1) show ?thesis by (rule pinv_quiet)
  next
    case (TimeoutFires p)
    then have "quiet m es m'" using outcome_timers [OF t assms(3)] by simp
    with assms(1) show ?thesis by (rule pinv_quiet)
  next
    case (CallUnlock u)
    with assms(2) show ?thesis by simp
  next
    case (LockReplied c r)
    with assms(2) show ?thesis by simp
  next
    case (UnlockReplied p r)
    with assms(2) show ?thesis by simp
  qed
qed

lemma pstep_leave:
  assumes "pinv ow i m ins rq rp" and "c0 \<in> ins" and "step m (CallUnlock u) = Some (es, m')"
  shows "pinv ow i m' ((ins - {c0}) \<union> set (ress es)) (sent rq es) rp"
proof -
  from assms(1) have t: "tidy m" by (simp add: pinv_def p_local_def)
  from assms(2) have h: "ins \<noteq> {} \<or> soft_held m" by blast
  note pre = pinv_holding [OF assms(1) h]
  have i0: "ins - {c0} = {}" using pre(4) [OF assms(2)] by simp
  have lp: "lockedOrPending m" using pre(5) [OF assms(2)] .
  from outcome_call_unlock [OF t assms(3)] lp
  consider (h) "handoff m es m'" | (s) "softened m es m'" | (y) "yielded m es m'" by blast
  then show ?thesis
  proof cases
    case h
    note h' = h [unfolded handoff_def]
    then obtain c where c: "ress es = [c]" by blast
    have "pinv ow i m' {c} rq rp"
      using assms(1) pre(1) pre(2)
    proof (rule pinv_enter)
      show "lockedOrPending m'" "live m' = {}" "bounded m'" "calls m \<le> calls m'"
        using h' pre(3) by simp_all
    qed
    then show ?thesis unfolding i0 using h' c by simp
  next
    case s
    note s' = s [unfolded softened_def]
    have "pinv ow i m' {} rq rp"
      using assms(1) pre(1) pre(2)
    proof (rule pinv_soften)
      show "live m' = {}" "bounded m'" "calls m' = calls m"
        using s' pre(3) by simp_all
    qed
    then show ?thesis unfolding i0 using s' by simp
  next
    case y
    from pinv_yield [OF assms(1) pre(1) pre(2) y pre(3)]
    show ?thesis unfolding i0 using y by (simp add: yielded_def)
  qed
qed

lemma pinv_fewer_replies:
  assumes "pinv ow i m ins rq rp" and "\<And>ev. rp' ev \<le> rp ev"
  shows "pinv ow i m ins rq rp'"
proof -
  have pos: "0 < rp' ev \<Longrightarrow> 0 < rp ev" for ev
    using assms(2) [of ev] by simp
  have "p_grant ow i m rq rp'"
    using assms(1) pos unfolding pinv_def p_grant_def by blast
  moreover have "p_fresh m rq rp'"
    using assms(1) pos unfolding pinv_def p_fresh_def by blast
  ultimately show ?thesis using assms(1) by (simp add: pinv_def)
qed

lemma pstep_reply:
  assumes "pinv ow i m ins rq rp" and "0 < rp ev" and "step m ev = Some (es, m')"
  shows "pinv ow i m' (ins \<union> set (ress es)) (sent rq es) (rp(ev := rp ev - 1))"
proof -
  from assms(1) have t: "tidy m" and pl: "p_local m ins" and pg: "p_grant ow i m rq rp"
    and pf: "p_fresh m rq rp"
    by (simp_all add: pinv_def p_local_def)
  have "pinv ow i m' (ins \<union> set (ress es)) (sent rq es) rp"
  proof -
    from pf assms(2) have "rejected ev \<noteq> None" unfolding p_fresh_def by blast
    then consider (l) c r where "ev = LockReplied c r" | (u) p r where "ev = UnlockReplied p r"
      by (cases ev) auto
    then show ?thesis
    proof cases
      case u
      from outcome_unlock_reply [OF t assms(3) [unfolded u]] assms(1)
      show ?thesis by (simp add: pinv_quiet)
    next
      case l
      from outcome_lock_reply [OF t assms(3) [unfolded l]]
      consider (q) "quiet m es m'" | (g) "r = Inr True" "granted c m es m'" by blast
      then show ?thesis
      proof cases
        case q
        with assms(1) show ?thesis by (rule pinv_quiet)
      next
        case g
        note g' = g(2) [unfolded granted_def]
        from g' have lv: "c \<in> live m" by (simp add: live_def)
        from pg assms(2) g(1) l g' have ow: "ow = Some i" and nu: "\<And>p. rq (ReqUnlock p) = 0"
          unfolding p_grant_def by blast+
        from pl lv have i0: "ins = {}" and lp: "lockedOrPending m" and l1: "live m = {c}"
          by (auto simp add: p_local_def tidy_def)
        have "pinv ow i m' {c} rq rp"
          using assms(1) ow nu
        proof (rule pinv_enter)
          show "lockedOrPending m'" "live m' = {}" "bounded m'" "calls m \<le> calls m'"
            using g' lp l1 by simp_all
        qed
        then show ?thesis using g' i0 by simp
      qed
    qed
  qed
  then show ?thesis by (rule pinv_fewer_replies) simp
qed

lemma pinv_owner_free:
  assumes "pinv None j m ins rq rp"
  shows "pinv ow j m ins rq rp"
proof -
  from assms have "p_hold ow j m ins" by (simp add: pinv_def p_hold_def)
  moreover from assms have "p_release ow j m ins rq"
    unfolding pinv_def p_release_def by blast
  moreover from assms have "p_grant ow j m rq rp"
    unfolding pinv_def p_grant_def by blast
  ultimately show ?thesis using assms by (simp add: pinv_def)
qed

lemma pinv_owner_other:
  assumes "pinv (Some i) j m ins rq rp" and "j \<noteq> i"
  shows "pinv ow j m ins rq rp"
proof -
  from assms have "p_hold ow j m ins" by (simp add: pinv_def p_hold_def)
  moreover from assms have "p_release ow j m ins rq"
    unfolding pinv_def p_release_def by auto
  moreover have "p_grant ow j m rq rp"
  proof -
    have "\<not> (0 < rp (LockReplied c (Inr True)) \<and> suspended m c \<noteq> None)" for c
      using assms unfolding pinv_def p_grant_def by blast
    then show ?thesis unfolding p_grant_def by blast
  qed
  ultimately show ?thesis using assms by (simp add: pinv_def)
qed

lemma pserve_lock_busy:
  assumes "pinv ow i m ins rq rp" and "0 < rq (ReqLock c)" and "ev = LockReplied c b"
    and "b \<noteq> Inr True"
  shows "pinv ow i m ins (rq(ReqLock c := rq (ReqLock c) - 1)) (rp(ev := Suc (rp ev)))"
proof -
  from assms(1) have pf: "p_fresh m rq rp" by (simp add: pinv_def)
  from assms(1) have "p_hold ow i m ins" by (simp add: pinv_def)
  moreover from assms(1) have "p_release ow i m ins (rq(ReqLock c := rq (ReqLock c) - 1))"
    by (simp add: pinv_def p_release_def)
  moreover from assms(1,3,4) have "p_grant ow i m (rq(ReqLock c := rq (ReqLock c) - 1))
      (rp(ev := Suc (rp ev)))"
    by (simp add: pinv_def p_grant_def)
  moreover from assms(1) have "p_local m ins" by (simp add: pinv_def)
  moreover have "p_fresh m (rq(ReqLock c := rq (ReqLock c) - 1)) (rp(ev := Suc (rp ev)))"
    using pf assms(2,3) unfolding p_fresh_def by auto
  ultimately show ?thesis by (simp add: pinv_def)
qed

lemma pserve_lock_free:
  assumes "pinv None i m ins rq rp" and "0 < rq (ReqLock c)" and "ev = LockReplied c (Inr True)"
  shows "pinv (Some i) i m ins (rq(ReqLock c := rq (ReqLock c) - 1)) (rp(ev := Suc (rp ev)))"
proof -
  from assms(1) have pf: "p_fresh m rq rp" by (simp add: pinv_def)
  from assms(1) have nu: "rq (ReqUnlock p) = 0" for p
    by (cases "rq (ReqUnlock p)") (auto simp add: pinv_def p_release_def)
  have "p_hold (Some i) i m ins" by (simp add: p_hold_def)
  moreover have "p_release (Some i) i m ins (rq(ReqLock c := rq (ReqLock c) - 1))"
    using nu by (simp add: p_release_def)
  moreover have "p_grant (Some i) i m (rq(ReqLock c := rq (ReqLock c) - 1)) (rp(ev := Suc (rp ev)))"
    using nu by (simp add: p_grant_def)
  moreover from assms(1) have "p_local m ins" by (simp add: pinv_def)
  moreover have "p_fresh m (rq(ReqLock c := rq (ReqLock c) - 1)) (rp(ev := Suc (rp ev)))"
    using pf assms(2,3) unfolding p_fresh_def by auto
  ultimately show ?thesis by (simp add: pinv_def)
qed

lemma pserve_unlock:
  assumes "pinv ow i m ins rq rp" and "0 < rq (ReqUnlock p)" and "ev = UnlockReplied p r"
  shows "ow = Some i"
    and "pinv None i m ins (rq(ReqUnlock p := rq (ReqUnlock p) - 1)) (rp(ev := Suc (rp ev)))"
proof -
  from assms(1) have pf: "p_fresh m rq rp" and pr: "p_release ow i m ins rq"
    and pg: "p_grant ow i m rq rp"
    by (simp_all add: pinv_def)
  from pr assms(2) show ow: "ow = Some i" unfolding p_release_def by blast
  from pr assms(2) have i0: "ins = {}" and nsh: "\<not> soft_held m" and one: "rq (ReqUnlock p) = 1"
    and only: "\<And>q. 0 < rq (ReqUnlock q) \<Longrightarrow> q = p"
    unfolding p_release_def by blast+
  let ?rq = "rq(ReqUnlock p := rq (ReqUnlock p) - 1)"
  have z: "?rq (ReqUnlock q) = 0" for q
    using one only [of q] by (cases "q = p") auto
  have "p_hold None i m ins" using i0 nsh by (simp add: p_hold_def)
  moreover have "p_release None i m ins ?rq"
    unfolding p_release_def using z by simp
  moreover have "p_grant None i m ?rq (rp(ev := Suc (rp ev)))"
  proof -
    have "\<not> (0 < rp (LockReplied c (Inr True)) \<and> suspended m c \<noteq> None)" for c
      using pg assms(2) unfolding p_grant_def by (metis less_numeral_extra(3))
    then show ?thesis using assms(3) by (simp add: p_grant_def)
  qed
  moreover from assms(1) have "p_local m ins" by (simp add: pinv_def)
  moreover have "p_fresh m ?rq (rp(ev := Suc (rp ev)))"
    using pf assms(3) unfolding p_fresh_def by auto
  ultimately show "pinv None i m ins ?rq (rp(ev := Suc (rp ev)))" by (simp add: pinv_def)
qed

lemma pfail_request:
  assumes "pinv ow i m ins rq rp" and "0 < rq r"
  shows "pinv ow i m ins (rq(r := rq r - 1)) (rp(rejection_of r := Suc (rp (rejection_of r))))"
proof -
  let ?rq = "rq(r := rq r - 1)" and ?rp = "rp(rejection_of r := Suc (rp (rejection_of r)))"
  from assms(1) have pf: "p_fresh m rq rp" and pr: "p_release ow i m ins rq"
    and pg: "p_grant ow i m rq rp"
    by (simp_all add: pinv_def)
  have le: "?rq x \<le> rq x" for x by simp
  have pos: "0 < ?rq x \<Longrightarrow> 0 < rq x" for x by (simp split: if_splits)
  have keep: "?rq (ReqUnlock q) = rq (ReqUnlock q)" if a: "0 < ?rq (ReqUnlock q)" for q
  proof (cases "r = ReqUnlock q")
    case True
    from pos [OF a] pr have "rq (ReqUnlock q) = 1" unfolding p_release_def by blast
    with a True show ?thesis by simp
  next
    case False
    then show ?thesis by simp
  qed
  from assms(1) have "p_hold ow i m ins" by (simp add: pinv_def)
  moreover have "p_release ow i m ins ?rq"
    unfolding p_release_def
  proof (intro allI impI)
    fix q assume a: "0 < ?rq (ReqUnlock q)"
    from pos [OF a] pr have b: "ow = Some i \<and> ins = {} \<and> \<not> soft_held m \<and> rq (ReqUnlock q) = 1
        \<and> (\<forall>q'. 0 < rq (ReqUnlock q') \<longrightarrow> q' = q)"
      unfolding p_release_def by blast
    with keep [OF a] pos show "ow = Some i \<and> ins = {} \<and> \<not> soft_held m \<and> ?rq (ReqUnlock q) = 1
        \<and> (\<forall>q'. 0 < ?rq (ReqUnlock q') \<longrightarrow> q' = q)"
      by metis
  qed
  moreover have "p_grant ow i m ?rq ?rp"
  proof -
    have r1: "0 < ?rp (LockReplied c (Inr True)) \<Longrightarrow> 0 < rp (LockReplied c (Inr True))" for c
      by (cases r) (auto split: if_splits)
    have "ow = Some i \<and> (\<forall>p. ?rq (ReqUnlock p) = 0)"
      if "0 < ?rp (LockReplied c (Inr True)) \<and> suspended m c \<noteq> None" for c
    proof -
      from that r1 pg have "ow = Some i \<and> (\<forall>p. rq (ReqUnlock p) = 0)"
        unfolding p_grant_def by blast
      then show ?thesis by auto
    qed
    then show ?thesis unfolding p_grant_def by blast
  qed
  moreover from assms(1) have "p_local m ins" by (simp add: pinv_def)
  moreover have "p_fresh m ?rq ?rp"
    using pf assms(2) pos unfolding p_fresh_def
    by (cases r) (auto split: if_splits)
  ultimately show ?thesis by (simp add: pinv_def)
qed

lemma pfail_reply:
  assumes "pinv ow i m ins rq rp" and "0 < rp ev" and "rejected ev = Some ev'"
  shows "pinv ow i m ins rq ((rp(ev := rp ev - 1))(ev' := Suc ((rp(ev := rp ev - 1)) ev')))"
proof -
  let ?rp = "(rp(ev := rp ev - 1))(ev' := Suc ((rp(ev := rp ev - 1)) ev'))"
  from assms(1) have pf: "p_fresh m rq rp" and pg: "p_grant ow i m rq rp"
    by (simp_all add: pinv_def)
  have nt: "ev' \<noteq> LockReplied c (Inr True)" for c
    using assms(3) by (cases ev) auto
  have r1: "0 < ?rp (LockReplied c (Inr True)) \<Longrightarrow> 0 < rp (LockReplied c (Inr True))" for c
    using nt [of c] by (auto split: if_splits)
  have "p_grant ow i m rq ?rp"
    using pg r1 unfolding p_grant_def by blast
  moreover have "p_fresh m rq ?rp"
  proof -
    have "c < calls m" if "0 < ?rp (LockReplied c r)" for c r
    proof (cases "ev' = LockReplied c r")
      case True
      with assms(3) obtain r0 where "ev = LockReplied c r0" by (cases ev) auto
      with pf assms(2) show ?thesis unfolding p_fresh_def by blast
    next
      case False
      with that have "0 < rp (LockReplied c r)" by (auto split: if_splits)
      with pf show ?thesis unfolding p_fresh_def by blast
    qed
    moreover have "rejected x \<noteq> None" if "0 < ?rp x" for x
    proof (cases "x = ev'")
      case True
      with assms(3) show ?thesis by (cases ev) auto
    next
      case False
      with that have "0 < rp x" by (auto split: if_splits)
      with pf show ?thesis unfolding p_fresh_def by blast
    qed
    ultimately show ?thesis using pf unfolding p_fresh_def by blast
  qed
  ultimately show ?thesis using assms(1) by (simp add: pinv_def)
qed

lemma count_Pair_image:
  "count (image_mset (Pair i) M) (j, r) = (if j = i then count M r else 0)"
  by (induction M) auto

lemma absorb_view:
  "host (absorb i (es, m') s) = host s"
  "procs (absorb i (es, m') s) j = (if j = i then m' else procs s j)"
  "ins_of (absorb i (es, m') s) j = (if j = i then ins_of s i \<union> set (ress es) else ins_of s j)"
  "rq_of (absorb i (es, m') s) j = (if j = i then sent (rq_of s i) es else rq_of s j)"
  "rp_of (absorb i (es, m') s) j = rp_of s j"
proof -
  show "host (absorb i (es, m') s) = host s" by (simp add: absorb_def)
  show "procs (absorb i (es, m') s) j = (if j = i then m' else procs s j)"
    by (simp add: absorb_def)
  show "ins_of (absorb i (es, m') s) j = (if j = i then ins_of s i \<union> set (ress es) else ins_of s j)"
    by (auto simp add: absorb_def ins_of_def ress_def)
  show "rq_of (absorb i (es, m') s) j = (if j = i then sent (rq_of s i) es else rq_of s j)"
    by (rule ext) (simp add: absorb_def rq_of_def sent_def reqs_def count_Pair_image count_mset)
  show "rp_of (absorb i (es, m') s) j = rp_of s j"
    by (rule ext) (simp add: absorb_def rp_of_def)
qed

lemma sys_inv_init: "sys_inv None system_init"
  by (simp add: sys_inv_def system_init_def LockHost_init_def pinv_def p_hold_def p_release_def
      p_grant_def p_local_def p_fresh_def ins_of_def rq_of_def rp_of_def soft_held_def
      Mutex_init_def tidy_def bounded_def live_def)

lemma inv_at:
  assumes "sys_inv ow s" and "spontaneous ev" and "step (procs s i) ev = Some (es, m')"
  shows "sys_inv ow (absorb i (es, m') s)"
proof -
  have "pinv ow j (procs (absorb i (es, m') s) j) (ins_of (absorb i (es, m') s) j)
      (rq_of (absorb i (es, m') s) j) (rp_of (absorb i (es, m') s) j)" for j
  proof (cases "j = i")
    case True
    from assms(1) have "pinv ow i (procs s i) (ins_of s i) (rq_of s i) (rp_of s i)"
      by (simp add: sys_inv_def)
    from pstep_spontaneous [OF this assms(2,3)] True show ?thesis by (simp add: absorb_view)
  next
    case False
    with assms(1) show ?thesis by (simp add: sys_inv_def absorb_view)
  qed
  with assms(1) show ?thesis by (simp add: sys_inv_def absorb_view)
qed

lemma inv_leave:
  assumes "sys_inv ow s" and "(i, c) \<in> inside s" and "step (procs s i) (CallUnlock u) = Some (es, m')"
  shows "sys_inv ow (absorb i (es, m') (s\<lparr>inside := inside s - {(i, c)}\<rparr>))"
proof -
  let ?s0 = "s\<lparr>inside := inside s - {(i, c)}\<rparr>"
  let ?s' = "absorb i (es, m') ?s0"
  have v0: "procs ?s0 = procs s" "rq_of ?s0 = rq_of s" "rp_of ?s0 = rp_of s" "host ?s0 = host s"
    "ins_of ?s0 j = (if j = i then ins_of s i - {c} else ins_of s j)" for j
    by (auto simp add: rq_of_def rp_of_def ins_of_def fun_eq_iff)
  have "pinv ow j (procs ?s' j) (ins_of ?s' j) (rq_of ?s' j) (rp_of ?s' j)" for j
  proof (cases "j = i")
    case True
    from assms(1) have p: "pinv ow i (procs s i) (ins_of s i) (rq_of s i) (rp_of s i)"
      by (simp add: sys_inv_def)
    from assms(2) have "c \<in> ins_of s i" by (simp add: ins_of_def)
    from pstep_leave [OF p this assms(3)] True show ?thesis by (simp add: absorb_view v0)
  next
    case False
    with assms(1) show ?thesis by (simp add: sys_inv_def absorb_view v0)
  qed
  with assms(1) show ?thesis by (simp add: sys_inv_def absorb_view v0)
qed

lemma inv_reply:
  assumes "sys_inv ow s" and "(i, ev) \<in># replies s" and "step (procs s i) ev = Some (es, m')"
  shows "sys_inv ow (absorb i (es, m') (s\<lparr>replies := replies s - {#(i, ev)#}\<rparr>))"
proof -
  let ?s0 = "s\<lparr>replies := replies s - {#(i, ev)#}\<rparr>"
  let ?s' = "absorb i (es, m') ?s0"
  have v0: "procs ?s0 = procs s" "rq_of ?s0 = rq_of s" "ins_of ?s0 = ins_of s" "host ?s0 = host s"
    "rp_of ?s0 j = (if j = i then (rp_of s i)(ev := rp_of s i ev - 1) else rp_of s j)" for j
    by (auto simp add: rq_of_def rp_of_def ins_of_def fun_eq_iff)
  have "pinv ow j (procs ?s' j) (ins_of ?s' j) (rq_of ?s' j) (rp_of ?s' j)" for j
  proof (cases "j = i")
    case True
    from assms(1) have p: "pinv ow i (procs s i) (ins_of s i) (rq_of s i) (rp_of s i)"
      by (simp add: sys_inv_def)
    from assms(2) have "0 < rp_of s i ev" by (simp add: rp_of_def)
    from pstep_reply [OF p this assms(3)] True show ?thesis by (simp add: absorb_view v0)
  next
    case False
    with assms(1) show ?thesis by (simp add: sys_inv_def absorb_view v0)
  qed
  with assms(1) show ?thesis by (simp add: sys_inv_def absorb_view v0)
qed

lemma moved_view:
  assumes "(i, r) \<in># requests s"
  shows "rq_of (s\<lparr>host := h, requests := requests s - {#(i, r)#},
                 replies := add_mset (i, ev) (replies s)\<rparr>) j =
           (if j = i then (rq_of s i)(r := rq_of s i r - 1) else rq_of s j)"
    and "rp_of (s\<lparr>host := h, requests := requests s - {#(i, r)#},
                 replies := add_mset (i, ev) (replies s)\<rparr>) j =
           (if j = i then (rp_of s i)(ev := Suc (rp_of s i ev)) else rp_of s j)"
    and "ins_of (s\<lparr>host := h, requests := requests s - {#(i, r)#},
                 replies := add_mset (i, ev) (replies s)\<rparr>) j = ins_of s j"
  by (auto simp add: rq_of_def rp_of_def ins_of_def fun_eq_iff)

lemma inv_serve:
  assumes "sys_inv ow s" and "(i, r) \<in># requests s" and "serve r (host s) = (ev, h)"
  shows "\<exists>ow'. sys_inv ow' (s\<lparr>host := h, requests := requests s - {#(i, r)#},
                             replies := add_mset (i, ev) (replies s)\<rparr>)"
proof -
  let ?s' = "s\<lparr>host := h, requests := requests s - {#(i, r)#},
               replies := add_mset (i, ev) (replies s)\<rparr>"
  from assms(1) have hst: "(ow = None) = (\<not> locked (host s))"
    and p: "\<And>j. pinv ow j (procs s j) (ins_of s j) (rq_of s j) (rp_of s j)"
    by (simp_all add: sys_inv_def)
  from assms(2) have pos: "0 < rq_of s i r" by (simp add: rq_of_def)
  note v = moved_view [OF assms(2), where h = h and ev = ev]
  show ?thesis
  proof (cases r)
    case (ReqUnlock q)
    with assms(3) have ev: "ev = UnlockReplied q None" and h: "\<not> locked h"
      by (auto simp add: LockHost_unlock_def)
    from pserve_unlock [OF p [of i] pos [unfolded ReqUnlock] ev]
    have ow: "ow = Some i"
      and pi: "pinv None i (procs s i) (ins_of s i)
          ((rq_of s i)(ReqUnlock q := rq_of s i (ReqUnlock q) - 1))
          ((rp_of s i)(ev := Suc (rp_of s i ev)))"
      by simp_all
    have "pinv None j (procs ?s' j) (ins_of ?s' j) (rq_of ?s' j) (rp_of ?s' j)" for j
    proof (cases "j = i")
      case True
      show ?thesis unfolding v using pi ReqUnlock True by simp
    next
      case False
      show ?thesis unfolding v
        using pinv_owner_other [OF p [of j, unfolded ow] False, of None] False by simp
    qed
    with h have "sys_inv None ?s'" by (simp add: sys_inv_def)
    then show ?thesis ..
  next
    case (ReqLock c)
    show ?thesis
    proof (cases "locked (host s)")
      case True
      with assms(3) ReqLock have ev: "ev = LockReplied c (Inr False)" and h: "h = host s"
        by (auto simp add: LockHost_lock_def)
      have "pinv ow j (procs ?s' j) (ins_of ?s' j) (rq_of ?s' j) (rp_of ?s' j)" for j
      proof (cases "j = i")
        case True
        show ?thesis unfolding v
          using pserve_lock_busy [OF p [of i] pos [unfolded ReqLock] ev] True ReqLock by simp
      next
        case False
        show ?thesis unfolding v using p [of j] False by simp
      qed
      with hst h have "sys_inv ow ?s'" by (simp add: sys_inv_def)
      then show ?thesis ..
    next
      case False
      with assms(3) ReqLock have ev: "ev = LockReplied c (Inr True)" and h: "locked h"
        by (auto simp add: LockHost_lock_def)
      from False hst have ow: "ow = None" by simp
      have "pinv (Some i) j (procs ?s' j) (ins_of ?s' j) (rq_of ?s' j) (rp_of ?s' j)" for j
      proof (cases "j = i")
        case True
        show ?thesis unfolding v
          using pserve_lock_free [OF p [of i, unfolded ow] pos [unfolded ReqLock] ev] True ReqLock
          by simp
      next
        case False
        show ?thesis unfolding v
          using pinv_owner_free [OF p [of j, unfolded ow], of "Some i"] False by simp
      qed
      with h have "sys_inv (Some i) ?s'" by (simp add: sys_inv_def)
      then show ?thesis ..
    qed
  qed
qed

lemma inv_fail_request:
  assumes "sys_inv ow s" and "(i, r) \<in># requests s"
  shows "sys_inv ow (s\<lparr>requests := requests s - {#(i, r)#},
                        replies := add_mset (i, rejection_of r) (replies s)\<rparr>)"
proof -
  let ?s' = "s\<lparr>requests := requests s - {#(i, r)#},
               replies := add_mset (i, rejection_of r) (replies s)\<rparr>"
  from assms(1) have p: "\<And>j. pinv ow j (procs s j) (ins_of s j) (rq_of s j) (rp_of s j)"
    by (simp add: sys_inv_def)
  from assms(2) have pos: "0 < rq_of s i r" by (simp add: rq_of_def)
  have v: "rq_of ?s' j = (if j = i then (rq_of s i)(r := rq_of s i r - 1) else rq_of s j)"
    "rp_of ?s' j = (if j = i then (rp_of s i)(rejection_of r := Suc (rp_of s i (rejection_of r)))
                    else rp_of s j)"
    "ins_of ?s' j = ins_of s j" "procs ?s' = procs s" "host ?s' = host s" for j
    by (auto simp add: rq_of_def rp_of_def ins_of_def fun_eq_iff)
  have "pinv ow j (procs ?s' j) (ins_of ?s' j) (rq_of ?s' j) (rp_of ?s' j)" for j
  proof (cases "j = i")
    case True
    from pfail_request [OF p [of i] pos] True show ?thesis by (simp add: v)
  next
    case False
    with p [of j] show ?thesis by (simp add: v)
  qed
  with assms(1) show ?thesis by (simp add: sys_inv_def v)
qed

lemma inv_fail_reply:
  assumes "sys_inv ow s" and "(i, ev) \<in># replies s" and "rejected ev = Some ev'"
  shows "sys_inv ow (s\<lparr>replies := add_mset (i, ev') (replies s - {#(i, ev)#})\<rparr>)"
proof -
  let ?s' = "s\<lparr>replies := add_mset (i, ev') (replies s - {#(i, ev)#})\<rparr>"
  from assms(1) have p: "\<And>j. pinv ow j (procs s j) (ins_of s j) (rq_of s j) (rp_of s j)"
    by (simp add: sys_inv_def)
  from assms(2) have pos: "0 < rp_of s i ev" by (simp add: rp_of_def)
  have v: "rq_of ?s' j = rq_of s j"
    "rp_of ?s' j = (if j = i then ((rp_of s i)(ev := rp_of s i ev - 1))
                        (ev' := Suc (((rp_of s i)(ev := rp_of s i ev - 1)) ev'))
                    else rp_of s j)"
    "ins_of ?s' j = ins_of s j" "procs ?s' = procs s" "host ?s' = host s" for j
    by (auto simp add: rq_of_def rp_of_def ins_of_def fun_eq_iff)
  have "pinv ow j (procs ?s' j) (ins_of ?s' j) (rq_of ?s' j) (rp_of ?s' j)" for j
  proof (cases "j = i")
    case True
    from pfail_reply [OF p [of i] pos assms(3)] True show ?thesis by (simp add: v)
  next
    case False
    with p [of j] show ?thesis by (simp add: v)
  qed
  with assms(1) show ?thesis by (simp add: sys_inv_def v)
qed

lemma sys_step_inv:
  assumes "sys_inv ow s" and "sys_step s e = Some s'"
  shows "\<exists>ow'. sys_inv ow' s'"
proof (cases e)
  case (At i ev)
  with assms(2) obtain es m' where "spontaneous ev" "step (procs s i) ev = Some (es, m')"
    "s' = absorb i (es, m') s"
    by (auto split: if_splits)
  with inv_at [OF assms(1)] show ?thesis by blast
next
  case (Leave i c u)
  obtain es m' where st: "step (procs s i) (CallUnlock u) = Some (es, m')"
    by (cases "unlock u (procs s i)") simp
  with assms(2) Leave have "(i, c) \<in> inside s"
    "s' = absorb i (es, m') (s\<lparr>inside := inside s - {(i, c)}\<rparr>)"
    by (auto split: if_splits)
  with inv_leave [OF assms(1) _ st] show ?thesis by blast
next
  case (Serve i r)
  with assms(2) obtain ev h where "(i, r) \<in># requests s" "serve r (host s) = (ev, h)"
    "s' = s\<lparr>host := h, requests := requests s - {#(i, r)#},
            replies := add_mset (i, ev) (replies s)\<rparr>"
    by (cases "serve r (host s)") (auto split: if_splits)
  with inv_serve [OF assms(1)] show ?thesis by blast
next
  case (Reply i ev)
  with assms(2) obtain es m' where "(i, ev) \<in># replies s"
    "step (procs s i) ev = Some (es, m')"
    "s' = absorb i (es, m') (s\<lparr>replies := replies s - {#(i, ev)#}\<rparr>)"
    by (auto split: if_splits)
  with inv_reply [OF assms(1)] show ?thesis by blast
next
  case (FailRequest i r)
  with assms(2) have "(i, r) \<in># requests s"
    "s' = s\<lparr>requests := requests s - {#(i, r)#},
            replies := add_mset (i, rejection_of r) (replies s)\<rparr>"
    by (auto split: if_splits)
  with inv_fail_request [OF assms(1)] show ?thesis by blast
next
  case (FailReply i ev)
  with assms(2) obtain ev' where "(i, ev) \<in># replies s" "rejected ev = Some ev'"
    "s' = s\<lparr>replies := add_mset (i, ev') (replies s - {#(i, ev)#})\<rparr>"
    by (auto split: if_splits)
  with inv_fail_reply [OF assms(1)] show ?thesis by blast
qed

lemma sys_run_inv:
  "sys_inv ow s \<Longrightarrow> sys_run s evs = Some s' \<Longrightarrow> \<exists>ow'. sys_inv ow' s'"
proof (induction evs arbitrary: ow s)
  case Nil
  then show ?case by auto
next
  case (Cons e evs)
  from Cons.prems(2) obtain s1 where a: "sys_step s e = Some s1" and b: "sys_run s1 evs = Some s'"
    by (auto split: option.splits)
  from sys_step_inv [OF Cons.prems(1) a] obtain ow1 where "sys_inv ow1 s1" ..
  from Cons.IH [OF this b] show ?case .
qed

text \<open>
  C1. In every state the system reaches from its start, whatever the schedule of
  calls, deliveries, timers, requests served, answers and transport failures, with
  \<open>unlock()\<close> called by callers whose \<open>lock()\<close> has resolved: at most one caller, of
  all callers of all processes, is inside the critical section; nobody is inside
  while a Mutex is soft-held, and at most one Mutex is soft-held; while a caller is
  inside or a Mutex is soft-held the host is locked, so that \<open>lock\<close> on the host
  returns false and changes nothing. A release is under way only with the host locked
  and nobody inside or soft-holding, and an answer true under way to a call that waits
  for it finds the host locked and nobody inside.
\<close>

theorem mutual_exclusion:
  assumes "sys_run system_init evs = Some s"
  shows "(\<forall>i c j d. (i, c) \<in> inside s \<and> (j, d) \<in> inside s \<longrightarrow> i = j \<and> c = d)
     \<and> (\<forall>i j c. (j, c) \<in> inside s \<longrightarrow> \<not> soft_held (procs s i))
     \<and> (\<forall>i j. soft_held (procs s i) \<and> soft_held (procs s j) \<longrightarrow> i = j)
     \<and> ((\<exists>i c. (i, c) \<in> inside s) \<or> (\<exists>i. soft_held (procs s i)) \<longrightarrow>
          locked (host s) \<and> LockHost_lock (host s) = (False, host s))
     \<and> (\<forall>i p. (i, ReqUnlock p) \<in># requests s \<longrightarrow>
          locked (host s) \<and> inside s = {} \<and> (\<forall>j. \<not> soft_held (procs s j)))
     \<and> (\<forall>i c. (i, LockReplied c (Inr True)) \<in># replies s \<and> suspended (procs s i) c \<noteq> None \<longrightarrow>
          locked (host s) \<and> inside s = {})"
proof -
  from sys_run_inv [OF sys_inv_init assms] obtain ow where inv: "sys_inv ow s" ..
  then have hst: "(ow = None) = (\<not> locked (host s))"
    and p: "\<And>j. pinv ow j (procs s j) (ins_of s j) (rq_of s j) (rp_of s j)"
    by (simp_all add: sys_inv_def)
  have own: "ow = Some i" if "(\<exists>c. (i, c) \<in> inside s) \<or> soft_held (procs s i)" for i
    using p [of i] that by (auto simp add: pinv_def p_hold_def ins_of_def)
  have one: "c = d" if "(i, c) \<in> inside s" "(i, d) \<in> inside s" for i c d
  proof -
    from that have "c \<in> ins_of s i" "d \<in> ins_of s i" by (simp_all add: ins_of_def)
    with p [of i] show ?thesis unfolding pinv_def p_local_def by blast
  qed
  have busy: "lockedOrPending (procs s i) \<and> live (procs s i) = {}" if "(i, c) \<in> inside s" for i c
  proof -
    from that have "ins_of s i \<noteq> {}" by (auto simp add: ins_of_def)
    with p [of i] show ?thesis by (simp add: pinv_def p_local_def)
  qed
  have c1: "i = j \<and> c = d" if "(i, c) \<in> inside s \<and> (j, d) \<in> inside s" for i c j d
  proof -
    from that have "ow = Some i" "ow = Some j" using own by blast+
    then have "i = j" by simp
    with that one show ?thesis by blast
  qed
  have c2: "\<not> soft_held (procs s i)" if "(j, c) \<in> inside s" for i j c
  proof
    assume sh: "soft_held (procs s i)"
    with that have "ow = Some i" "ow = Some j" using own by blast+
    then have "i = j" by simp
    with busy [OF that] sh show False by (simp add: soft_held_def)
  qed
  have c3: "i = j" if "soft_held (procs s i) \<and> soft_held (procs s j)" for i j
  proof -
    from that have "ow = Some i" "ow = Some j" using own by blast+
    then show ?thesis by simp
  qed
  have c4: "locked (host s) \<and> LockHost_lock (host s) = (False, host s)"
    if "(\<exists>i c. (i, c) \<in> inside s) \<or> (\<exists>i. soft_held (procs s i))"
  proof -
    from that obtain i where "ow = Some i" using own by blast
    with hst have "locked (host s)" by simp
    then show ?thesis by (simp add: LockHost_lock_def)
  qed
  have c5: "locked (host s) \<and> inside s = {} \<and> (\<forall>j. \<not> soft_held (procs s j))"
    if "(i, ReqUnlock q) \<in># requests s" for i q
  proof -
    from that have "0 < rq_of s i (ReqUnlock q)" by (simp add: rq_of_def)
    with p [of i] have o: "ow = Some i" and e: "ins_of s i = {}" and n: "\<not> soft_held (procs s i)"
      unfolding pinv_def p_release_def by blast+
    have "\<not> ((\<exists>c. (j, c) \<in> inside s) \<or> soft_held (procs s j))" for j
    proof
      assume a: "(\<exists>c. (j, c) \<in> inside s) \<or> soft_held (procs s j)"
      from own [OF a] o have "j = i" by simp
      with a e n show False by (auto simp add: ins_of_def)
    qed
    then have "inside s = {}" "\<forall>j. \<not> soft_held (procs s j)" by auto
    with o hst show ?thesis by simp
  qed
  have c6: "locked (host s) \<and> inside s = {}"
    if "(i, LockReplied c (Inr True)) \<in># replies s \<and> suspended (procs s i) c \<noteq> None" for i c
  proof -
    from that have "0 < rp_of s i (LockReplied c (Inr True))" by (simp add: rp_of_def)
    with p [of i] that have o: "ow = Some i"
      unfolding pinv_def p_grant_def by blast
    from that have l: "c \<in> live (procs s i)" by (simp add: live_def)
    have "(j, d) \<notin> inside s" for j d
    proof
      assume a: "(j, d) \<in> inside s"
      then have "ow = Some j" using own by blast
      with o have "j = i" by simp
      with busy [OF a] l show False by simp
    qed
    then have "inside s = {}" by auto
    with o hst show ?thesis by simp
  qed
  from c1 c2 c3 c4 c5 c6 show ?thesis by blast
qed

lemma contention_example_run:
  "sys_run system_init
       [At 0 CallLock, Serve 0 (ReqLock 0), Reply 0 (LockReplied 0 (Inr True)),
        At 1 CallLock, Serve 1 (ReqLock 0)] = Some contention_example"
  by (simp add: contention_example_def system_init_def absorb_def Mutex_defs LockHost_init_def
      LockHost_lock_def List.map_filter_simps)

lemma contention_example_fields:
  "inside contention_example = {(0, 0)}"
  "replies contention_example = {#(1, LockReplied 0 (Inr False))#}"
  by (simp_all add: contention_example_def system_init_def absorb_def Mutex_defs LockHost_init_def
      LockHost_lock_def List.map_filter_simps)

theorem mutual_exclusion_witness:
  "sys_run system_init
       [At 0 CallLock, Serve 0 (ReqLock 0), Reply 0 (LockReplied 0 (Inr True)),
        At 1 CallLock, Serve 1 (ReqLock 0)] = Some contention_example
   \<and> inside contention_example = {(0, 0)}
   \<and> replies contention_example = {#(1, LockReplied 0 (Inr False))#}
   \<and> locked (host contention_example)
   \<and> LockHost_lock (host contention_example) = (False, host contention_example)"
  using mutual_exclusion [OF contention_example_run] contention_example_run
    contention_example_fields
  by auto

end
